theory Spec2Isabelle
  imports Main "HOL-Library.AList" "HOL-Library.Word"
begin

section \<open>The in-memory postings index of Loki's TSDB (package index, postings.go)\<close>

text \<open>
  A series reference (\<open>storage.SeriesRef\<close>) is an unsigned 64-bit integer. The code only
  compares references and never computes with them, so they are natural numbers here.
  A label is a pair of a name and a value; a label set (\<open>labels.Labels\<close>) is the list
  of labels that \<open>Range\<close> visits. A Go \<open>error\<close> is its message; \<open>nil\<close> is \<open>None\<close>.
\<close>

type_synonym SeriesRef = nat
type_synonym Label = "string \<times> string"
type_synonym error = string

definition allPostingsKey :: Label where
  "allPostingsKey = ([], [])"

subsection \<open>The store\<close>

text \<open>
  \<open>map[string]map[string][]storage.SeriesRef\<close>: a Go map is an association list whose
  order stands for the (unspecified) iteration order of \<open>range\<close>. A lookup is
  \<open>map_of\<close>, an assignment \<open>AList.update\<close>, \<open>delete\<close> is \<open>AList.delete\<close>, \<open>len\<close> is
  \<open>length\<close>. A missing key and a nil slice are both the empty list.
\<close>

datatype MemPostings =
  MemPostings "(string \<times> (string \<times> SeriesRef list) list) list" bool

definition NewMemPostings :: MemPostings where
  "NewMemPostings = MemPostings [] True"

definition NewUnorderedMemPostings :: MemPostings where
  "NewUnorderedMemPostings = MemPostings [] False"

text \<open>The inner map \<open>p.m[name]\<close> (nil when the name is missing) and the list \<open>p.m[name][value]\<close>.\<close>

fun inner_map :: "MemPostings \<Rightarrow> string \<Rightarrow> (string \<times> SeriesRef list) list" where
  "inner_map (MemPostings m ordered) name = (case map_of m name of None \<Rightarrow> [] | Some e \<Rightarrow> e)"

definition postings_list :: "MemPostings \<Rightarrow> string \<Rightarrow> string \<Rightarrow> SeriesRef list" where
  "postings_list p name val = (case map_of (inner_map p name) val of None \<Rightarrow> [] | Some l \<Rightarrow> l)"

fun is_ordered :: "MemPostings \<Rightarrow> bool" where
  "is_ordered (MemPostings m ordered) = ordered"

definition LabelValues :: "MemPostings \<Rightarrow> string \<Rightarrow> string list" where
  "LabelValues p name = map fst (inner_map p name)"

text \<open>
  The repair loop of \<open>addFor\<close>:
  \<open>for i := len(list) - 1; i >= 1; i-- { if list[i] >= list[i-1] { break }; swap }\<close>.
  It starts at the last index of a non-empty list, so every index it reads is in range.
\<close>

function repair :: "SeriesRef list \<Rightarrow> nat \<Rightarrow> SeriesRef list" where
  "repair list i =
     (if i \<ge> 1 then
        (if list ! i \<ge> list ! (i - 1) then list
         else repair (list[i := list ! (i - 1), i - 1 := list ! i]) (i - 1))
      else list)"
  by pat_completeness auto
termination
  by (relation "measure (\<lambda>(list, i). i)") auto

declare repair.simps [simp del]

fun addFor :: "SeriesRef \<Rightarrow> Label \<Rightarrow> MemPostings \<Rightarrow> MemPostings" where
  "addFor ref (Name, Value) (MemPostings m ordered) =
     (let nm = (case map_of m Name of None \<Rightarrow> [] | Some nm \<Rightarrow> nm);
          list = (case map_of nm Value of None \<Rightarrow> [] | Some l \<Rightarrow> l) @ [ref];
          list' = (if \<not> ordered then list else repair list (length list - 1))
      in MemPostings (AList.update Name (AList.update Value list' nm) m) ordered)"

definition Add :: "SeriesRef \<Rightarrow> Label list \<Rightarrow> MemPostings \<Rightarrow> MemPostings" where
  "Add ref lset p = addFor ref allPostingsKey (foldl (\<lambda>p l. addFor ref l p) p lset)"

text \<open>
  \<open>EnsureOrder\<close> hands every postings list to a worker that runs \<open>sort.Sort\<close> on it and
  waits for all workers. \<open>sort.Sort\<close> is the Go library's; it leaves the list in
  ascending order, which for integers is one list whatever the algorithm: \<open>sort\<close>.
\<close>

fun EnsureOrder :: "MemPostings \<Rightarrow> MemPostings" where
  "EnsureOrder (MemPostings m ordered) =
     (if ordered then MemPostings m ordered
      else MemPostings (map (\<lambda>(n, e). (n, map (\<lambda>(v, l). (v, sort l)) e)) m) True)"

text \<open>\<open>Delete\<close>: the body of the loop over the values of one name, then over the names.\<close>

fun Delete_value :: "SeriesRef set \<Rightarrow> string \<Rightarrow> MemPostings \<Rightarrow> string \<Rightarrow> MemPostings" where
  "Delete_value deleted n (MemPostings m ordered) l =
     (let e = (case map_of m n of None \<Rightarrow> [] | Some e \<Rightarrow> e);
          lst = (case map_of e l of None \<Rightarrow> [] | Some lst \<Rightarrow> lst);
          found = (\<exists>ref \<in> set lst. ref \<in> deleted)
      in if \<not> found then MemPostings m ordered
         else let repl = filter (\<lambda>ref. ref \<notin> deleted) lst
              in if length repl > 0
                 then MemPostings (AList.update n (AList.update l repl e) m) ordered
                 else MemPostings (AList.update n (AList.delete l e) m) ordered)"

definition Delete_name :: "SeriesRef set \<Rightarrow> MemPostings \<Rightarrow> string \<Rightarrow> MemPostings" where
  "Delete_name deleted p n =
     (let vals = map fst (inner_map p n);
          p' = foldl (Delete_value deleted n) p vals
      in if length (inner_map p' n) = 0
         then (case p' of MemPostings m ordered \<Rightarrow> MemPostings (AList.delete n m) ordered)
         else p')"

fun Delete :: "SeriesRef set \<Rightarrow> MemPostings \<Rightarrow> MemPostings" where
  "Delete deleted (MemPostings m ordered) =
     foldl (Delete_name deleted) (MemPostings m ordered) (map fst m)"


subsection \<open>The Postings interface\<close>

text \<open>
  \<open>type Postings interface { Next() bool; Seek(v) bool; At() SeriesRef; Err() error }\<close>.
  An implementation is a table of its methods over its state type \<open>'s\<close>; a method that
  changes the receiver returns the new state. \<open>Next\<close> and \<open>Seek\<close> of the composite
  iterators loop, so a call that does not return is \<open>None\<close>. \<open>IsEmptyPostingsType\<close> is
  the comparison \<open>p == emptyPostings\<close> of an interface value with the sentinel.
\<close>

record 's Postings =
  Next :: "'s \<Rightarrow> (bool \<times> 's) option"
  Seek :: "'s \<Rightarrow> SeriesRef \<Rightarrow> (bool \<times> 's) option"
  At :: "'s \<Rightarrow> SeriesRef"
  Err :: "'s \<Rightarrow> error option"
  IsEmptyPostingsType :: "'s \<Rightarrow> bool"

text \<open>
  An interface value whose dynamic type is one of two implementations: every method
  dispatches on the type.
\<close>

definition dyn_Postings :: "'a Postings \<Rightarrow> 'b Postings \<Rightarrow> ('a + 'b) Postings" where
  "dyn_Postings A B =
     \<lparr> Next = (\<lambda>s. case s of
                  Inl a \<Rightarrow> map_option (\<lambda>(ok, a'). (ok, Inl a')) (Next A a)
                | Inr b \<Rightarrow> map_option (\<lambda>(ok, b'). (ok, Inr b')) (Next B b)),
       Seek = (\<lambda>s v. case s of
                  Inl a \<Rightarrow> map_option (\<lambda>(ok, a'). (ok, Inl a')) (Seek A a v)
                | Inr b \<Rightarrow> map_option (\<lambda>(ok, b'). (ok, Inr b')) (Seek B b v)),
       At = (\<lambda>s. case s of Inl a \<Rightarrow> At A a | Inr b \<Rightarrow> At B b),
       Err = (\<lambda>s. case s of Inl a \<Rightarrow> Err A a | Inr b \<Rightarrow> Err B b),
       IsEmptyPostingsType =
         (\<lambda>s. case s of Inl a \<Rightarrow> IsEmptyPostingsType A a | Inr b \<Rightarrow> IsEmptyPostingsType B b) \<rparr>"

text \<open>\<open>ExpandPostings\<close>: \<open>for p.Next() { res = append(res, p.At()) }; return res, p.Err()\<close>.\<close>

partial_function (option) ExpandPostings_loop ::
  "'s Postings \<Rightarrow> 's \<Rightarrow> SeriesRef list \<Rightarrow> (SeriesRef list \<times> error option) option" where
  "ExpandPostings_loop P p res =
     (case Next P p of
        None \<Rightarrow> None
      | Some (ok, p') \<Rightarrow>
          if ok then ExpandPostings_loop P p' (res @ [At P p']) else Some (res, Err P p'))"

declare ExpandPostings_loop.simps [code]

definition ExpandPostings :: "'s Postings \<Rightarrow> 's \<Rightarrow> (SeriesRef list \<times> error option) option" where
  "ExpandPostings P p = ExpandPostings_loop P p []"

subsection \<open>errPostings and the empty sentinel\<close>

datatype errPostings = errPostings "error option"

definition emptyPostings :: errPostings where
  "emptyPostings = errPostings None"

definition EmptyPostings :: errPostings where
  "EmptyPostings = emptyPostings"

definition ErrPostings :: "error \<Rightarrow> errPostings" where
  "ErrPostings err = errPostings (Some err)"

fun errPostings_Err :: "errPostings \<Rightarrow> error option" where
  "errPostings_Err (errPostings err) = err"

definition errPostings_Postings :: "errPostings Postings" where
  "errPostings_Postings =
     \<lparr> Next = (\<lambda>e. Some (False, e)),
       Seek = (\<lambda>e v. Some (False, e)),
       At = (\<lambda>e. 0),
       Err = errPostings_Err,
       IsEmptyPostingsType = (\<lambda>e. e = emptyPostings) \<rparr>"

subsection \<open>ListPostings\<close>

text \<open>
  \<open>sort.Search(n, f)\<close> of the Go library: binary search for the least index in
  \<open>[0, n)\<close> at which \<open>f\<close> holds (\<open>n\<close> when there is none), for an \<open>f\<close> that is false and
  then true.
\<close>

function Search_loop :: "(nat \<Rightarrow> bool) \<Rightarrow> nat \<Rightarrow> nat \<Rightarrow> nat" where
  "Search_loop f i j =
     (if i < j then
        (let h = (i + j) div 2
         in if \<not> f h then Search_loop f (h + 1) j else Search_loop f i h)
      else i)"
  by pat_completeness auto
termination
  by (relation "measure (\<lambda>(f, i, j). j - i)") auto

declare Search_loop.simps [simp del]

definition Search :: "nat \<Rightarrow> (nat \<Rightarrow> bool) \<Rightarrow> nat" where
  "Search n f = Search_loop f 0 n"

datatype ListPostings = ListPostings "SeriesRef list" SeriesRef

definition newListPostings :: "SeriesRef list \<Rightarrow> ListPostings" where
  "newListPostings list = ListPostings list 0"

fun ListPostings_At :: "ListPostings \<Rightarrow> SeriesRef" where
  "ListPostings_At (ListPostings list cur) = cur"

fun ListPostings_Next :: "ListPostings \<Rightarrow> bool \<times> ListPostings" where
  "ListPostings_Next (ListPostings list cur) =
     (if length list > 0 then (True, ListPostings (drop 1 list) (list ! 0))
      else (False, ListPostings list 0))"

fun ListPostings_Seek :: "ListPostings \<Rightarrow> SeriesRef \<Rightarrow> bool \<times> ListPostings" where
  "ListPostings_Seek (ListPostings list cur) x =
     (if cur \<ge> x then (True, ListPostings list cur)
      else if length list = 0 then (False, ListPostings list cur)
      else (let i = Search (length list) (\<lambda>i. list ! i \<ge> x)
            in if i < length list then (True, ListPostings (drop (i + 1) list) (list ! i))
               else (False, ListPostings [] cur)))"

definition ListPostings_Postings :: "ListPostings Postings" where
  "ListPostings_Postings =
     \<lparr> Next = (\<lambda>it. Some (ListPostings_Next it)),
       Seek = (\<lambda>it x. Some (ListPostings_Seek it x)),
       At = ListPostings_At,
       Err = (\<lambda>it. None),
       IsEmptyPostingsType = (\<lambda>it. False) \<rparr>"

subsection \<open>BigEndianPostings\<close>

text \<open>
  \<open>binary.BigEndian.Uint32\<close> reads the first four bytes of a slice; every call in this
  file is guarded by a length check, so the slice has them.
\<close>

definition Uint32 :: "8 word list \<Rightarrow> 32 word" where
  "Uint32 b = push_bit 24 (ucast (b ! 0)) + push_bit 16 (ucast (b ! 1))
              + push_bit 8 (ucast (b ! 2)) + ucast (b ! 3)"

datatype BigEndianPostings = BigEndianPostings "8 word list" "32 word"

definition NewBigEndianPostings :: "8 word list \<Rightarrow> BigEndianPostings" where
  "NewBigEndianPostings list = BigEndianPostings list 0"

fun BigEndianPostings_At :: "BigEndianPostings \<Rightarrow> SeriesRef" where
  "BigEndianPostings_At (BigEndianPostings list cur) = unat cur"

fun BigEndianPostings_Next :: "BigEndianPostings \<Rightarrow> bool \<times> BigEndianPostings" where
  "BigEndianPostings_Next (BigEndianPostings list cur) =
     (if length list \<ge> 4 then (True, BigEndianPostings (drop 4 list) (Uint32 list))
      else (False, BigEndianPostings list cur))"

text \<open>\<open>uint32(x)\<close> keeps the low 32 bits of the reference: \<open>of_nat x\<close>.\<close>

fun BigEndianPostings_Seek :: "BigEndianPostings \<Rightarrow> SeriesRef \<Rightarrow> bool \<times> BigEndianPostings" where
  "BigEndianPostings_Seek (BigEndianPostings list cur) x =
     (if unat cur \<ge> x then (True, BigEndianPostings list cur)
      else (let num = length list div 4;
                i = Search num (\<lambda>i. Uint32 (drop (i * 4) list) \<ge> of_nat x)
            in if i < num
               then (let j = i * 4
                     in (True, BigEndianPostings (drop (j + 4) list) (Uint32 (drop j list))))
               else (False, BigEndianPostings [] cur)))"

definition BigEndianPostings_Postings :: "BigEndianPostings Postings" where
  "BigEndianPostings_Postings =
     \<lparr> Next = (\<lambda>it. Some (BigEndianPostings_Next it)),
       Seek = (\<lambda>it x. Some (BigEndianPostings_Seek it x)),
       At = BigEndianPostings_At,
       Err = (\<lambda>it. None),
       IsEmptyPostingsType = (\<lambda>it. False) \<rparr>"

subsection \<open>The store's readers\<close>

definition Get :: "MemPostings \<Rightarrow> string \<Rightarrow> string \<Rightarrow> errPostings + ListPostings" where
  "Get p name val =
     (let lp = postings_list p name val
      in if lp = [] then Inl EmptyPostings else Inr (newListPostings lp))"

definition All :: "MemPostings \<Rightarrow> errPostings + ListPostings" where
  "All p = Get p (fst allPostingsKey) (snd allPostingsKey)"


subsection \<open>Intersect\<close>

datatype 's intersectPostings = intersectPostings "'s list" SeriesRef

definition newIntersectPostings :: "'s list \<Rightarrow> 's intersectPostings" where
  "newIntersectPostings its = intersectPostings its 0"

fun intersectPostings_At :: "'s intersectPostings \<Rightarrow> SeriesRef" where
  "intersectPostings_At (intersectPostings arr cur) = cur"

text \<open>
  One pass of the inner \<open>for _, p := range it.arr\<close> of \<open>doNext\<close>: it ends by
  \<open>return false\<close>, by \<open>continue Loop\<close> with a new \<open>it.cur\<close>, or by falling out of the
  loop (\<open>return true\<close>).
\<close>

datatype sweep = ReturnFalse | ContinueLoop SeriesRef | ReturnTrue

fun doNext_sweep :: "'s Postings \<Rightarrow> SeriesRef \<Rightarrow> 's list \<Rightarrow> (sweep \<times> 's list) option" where
  "doNext_sweep P cur [] = Some (ReturnTrue, [])"
| "doNext_sweep P cur (p # ps) =
     (case Seek P p cur of
        None \<Rightarrow> None
      | Some (ok, p') \<Rightarrow>
          if \<not> ok then Some (ReturnFalse, p' # ps)
          else if At P p' > cur then Some (ContinueLoop (At P p'), p' # ps)
          else (case doNext_sweep P cur ps of
                  None \<Rightarrow> None
                | Some (r, ps') \<Rightarrow> Some (r, p' # ps')))"

partial_function (option) doNext ::
  "'s Postings \<Rightarrow> 's list \<Rightarrow> SeriesRef \<Rightarrow> (bool \<times> 's intersectPostings) option" where
  "doNext P arr cur =
     (case doNext_sweep P cur arr of
        None \<Rightarrow> None
      | Some (r, arr') \<Rightarrow>
          (case r of
             ReturnFalse \<Rightarrow> Some (False, intersectPostings arr' cur)
           | ContinueLoop c \<Rightarrow> doNext P arr' c
           | ReturnTrue \<Rightarrow> Some (True, intersectPostings arr' cur)))"

declare doNext.simps [code]

text \<open>The loop of \<open>Next\<close>: every input steps once, \<open>it.cur\<close> follows the largest value seen.\<close>

fun intersectPostings_Next_loop ::
  "'s Postings \<Rightarrow> SeriesRef \<Rightarrow> 's list \<Rightarrow> (bool \<times> 's list \<times> SeriesRef) option" where
  "intersectPostings_Next_loop P cur [] = Some (True, [], cur)"
| "intersectPostings_Next_loop P cur (p # ps) =
     (case Next P p of
        None \<Rightarrow> None
      | Some (ok, p') \<Rightarrow>
          if \<not> ok then Some (False, p' # ps, cur)
          else (let cur' = (if At P p' > cur then At P p' else cur)
                in case intersectPostings_Next_loop P cur' ps of
                     None \<Rightarrow> None
                   | Some (r, ps', c) \<Rightarrow> Some (r, p' # ps', c)))"

fun intersectPostings_Next ::
  "'s Postings \<Rightarrow> 's intersectPostings \<Rightarrow> (bool \<times> 's intersectPostings) option" where
  "intersectPostings_Next P (intersectPostings arr cur) =
     (case intersectPostings_Next_loop P cur arr of
        None \<Rightarrow> None
      | Some (ok, arr', cur') \<Rightarrow>
          if \<not> ok then Some (False, intersectPostings arr' cur') else doNext P arr' cur')"

fun intersectPostings_Seek ::
  "'s Postings \<Rightarrow> 's intersectPostings \<Rightarrow> SeriesRef \<Rightarrow> (bool \<times> 's intersectPostings) option" where
  "intersectPostings_Seek P (intersectPostings arr cur) ref = doNext P arr ref"

fun intersectPostings_Err_loop :: "'s Postings \<Rightarrow> 's list \<Rightarrow> error option" where
  "intersectPostings_Err_loop P [] = None"
| "intersectPostings_Err_loop P (p # ps) =
     (if Err P p \<noteq> None then Err P p else intersectPostings_Err_loop P ps)"

fun intersectPostings_Err :: "'s Postings \<Rightarrow> 's intersectPostings \<Rightarrow> error option" where
  "intersectPostings_Err P (intersectPostings arr cur) = intersectPostings_Err_loop P arr"

definition intersectPostings_Postings :: "'s Postings \<Rightarrow> 's intersectPostings Postings" where
  "intersectPostings_Postings P =
     \<lparr> Next = intersectPostings_Next P,
       Seek = intersectPostings_Seek P,
       At = intersectPostings_At,
       Err = intersectPostings_Err P,
       IsEmptyPostingsType = (\<lambda>it. False) \<rparr>"

text \<open>
  \<open>Intersect\<close> returns the sentinel, its only argument, or a new \<open>intersectPostings\<close>:
  the three dynamic types of its result.
\<close>

definition Intersect :: "'s Postings \<Rightarrow> 's list \<Rightarrow> errPostings + 's + 's intersectPostings" where
  "Intersect P its =
     (if length its = 0 then Inl EmptyPostings
      else if length its = 1 then Inr (Inl (its ! 0))
      else if \<exists>p \<in> set its. IsEmptyPostingsType P p then Inl EmptyPostings
      else Inr (Inr (newIntersectPostings its)))"

definition Intersect_Postings :: "'s Postings \<Rightarrow> (errPostings + 's + 's intersectPostings) Postings" where
  "Intersect_Postings P = dyn_Postings errPostings_Postings (dyn_Postings P (intersectPostings_Postings P))"


subsection \<open>Merge\<close>

text \<open>
  \<open>postingsHeap\<close> with the Go library's \<open>container/heap\<close>: \<open>Less(i, j)\<close> compares the
  current values, \<open>Swap\<close> exchanges two entries; \<open>down\<close> and \<open>up\<close> are the library's
  sift loops, \<open>Init\<close>, \<open>Fix\<close> and \<open>Pop\<close> its entry points. \<open>Pop\<close> here returns the
  heap without the entry it removes, which its callers do not use.
\<close>

definition heap_Less :: "'s Postings \<Rightarrow> 's list \<Rightarrow> nat \<Rightarrow> nat \<Rightarrow> bool" where
  "heap_Less P h i j = (At P (h ! i) < At P (h ! j))"

definition heap_Swap :: "'s list \<Rightarrow> nat \<Rightarrow> nat \<Rightarrow> 's list" where
  "heap_Swap h i j = h[i := h ! j, j := h ! i]"

function heap_down_loop :: "'s Postings \<Rightarrow> 's list \<Rightarrow> nat \<Rightarrow> nat \<Rightarrow> 's list \<times> nat" where
  "heap_down_loop P h i n =
     (let j1 = 2 * i + 1
      in if j1 \<ge> n then (h, i)
         else (let j = (if j1 + 1 < n \<and> heap_Less P h (j1 + 1) j1 then j1 + 1 else j1)
               in if \<not> heap_Less P h j i then (h, i)
                  else heap_down_loop P (heap_Swap h i j) j n))"
  by pat_completeness auto
termination
  by (relation "measure (\<lambda>(P, h, i, n). n - i)") auto

declare heap_down_loop.simps [simp del]

definition heap_down :: "'s Postings \<Rightarrow> 's list \<Rightarrow> nat \<Rightarrow> nat \<Rightarrow> 's list \<times> bool" where
  "heap_down P h i0 n = (case heap_down_loop P h i0 n of (h', i) \<Rightarrow> (h', i > i0))"

function heap_up :: "'s Postings \<Rightarrow> 's list \<Rightarrow> nat \<Rightarrow> 's list" where
  "heap_up P h j =
     (let i = (j - 1) div 2
      in if i = j \<or> \<not> heap_Less P h j i then h
         else heap_up P (heap_Swap h i j) i)"
  by pat_completeness auto
termination
  by (relation "measure (\<lambda>(P, h, j). j)") auto

declare heap_up.simps [simp del]

definition heap_Init :: "'s Postings \<Rightarrow> 's list \<Rightarrow> 's list" where
  "heap_Init P h =
     (let n = length h
      in fold (\<lambda>i h. fst (heap_down P h i n)) (rev [0..<n div 2]) h)"

definition heap_Fix :: "'s Postings \<Rightarrow> 's list \<Rightarrow> nat \<Rightarrow> 's list" where
  "heap_Fix P h i =
     (case heap_down P h i (length h) of
        (h', moved) \<Rightarrow> if \<not> moved then heap_up P h' i else h')"

definition heap_Pop :: "'s Postings \<Rightarrow> 's list \<Rightarrow> 's list" where
  "heap_Pop P h =
     (let n = length h - 1;
          h' = fst (heap_down P (heap_Swap h 0 n) 0 n)
      in take n h')"

datatype 's mergedPostings = mergedPostings "'s list" bool SeriesRef "error option"

fun mergedPostings_At :: "'s mergedPostings \<Rightarrow> SeriesRef" where
  "mergedPostings_At (mergedPostings h initialized cur err) = cur"

fun mergedPostings_Err :: "'s mergedPostings \<Rightarrow> error option" where
  "mergedPostings_Err (mergedPostings h initialized cur err) = err"

text \<open>
  The loop of \<open>newMergedPostings\<close>: \<open>Inl\<close> is the early return with an input's error,
  \<open>Inr\<close> the heap of the inputs whose first \<open>Next\<close> found a value.
\<close>

fun newMergedPostings_loop ::
  "'s Postings \<Rightarrow> 's list \<Rightarrow> 's list \<Rightarrow> (error option + 's list) option" where
  "newMergedPostings_loop P ph [] = Some (Inr ph)"
| "newMergedPostings_loop P ph (it # its) =
     (case Next P it of
        None \<Rightarrow> None
      | Some (ok, it') \<Rightarrow>
          if ok then newMergedPostings_loop P (ph @ [it']) its
          else if Err P it' \<noteq> None then Some (Inl (Err P it'))
          else newMergedPostings_loop P ph its)"

text \<open>The result \<open>(m, nonEmpty)\<close>: \<open>None\<close> inside is \<open>(nil, false)\<close>.\<close>

definition newMergedPostings :: "'s Postings \<Rightarrow> 's list \<Rightarrow> 's mergedPostings option option" where
  "newMergedPostings P p =
     (case newMergedPostings_loop P [] p of
        None \<Rightarrow> None
      | Some (Inl e) \<Rightarrow> Some (Some (mergedPostings [] False 0 e))
      | Some (Inr ph) \<Rightarrow>
          if length ph = 0 then Some None
          else Some (Some (mergedPostings ph False 0 None)))"

text \<open>
  The \<open>for\<close> loop of \<open>mergedPostings.Next\<close>. \<open>cur := it.h[0]\<close> is the iterator at the
  top of the heap; its \<open>Next\<close> changes it in place, before \<open>heap.Pop\<close> or \<open>heap.Fix\<close>.
\<close>

partial_function (option) mergedPostings_Next_loop ::
  "'s Postings \<Rightarrow> 's list \<Rightarrow> SeriesRef \<Rightarrow> (bool \<times> 's mergedPostings) option" where
  "mergedPostings_Next_loop P h c =
     (case Next P (h ! 0) of
        None \<Rightarrow> None
      | Some (ok, cur) \<Rightarrow>
          if \<not> ok then
            (let h' = heap_Pop P (h[0 := cur])
             in if Err P cur \<noteq> None then Some (False, mergedPostings h' True c (Err P cur))
                else if length h' = 0 then Some (False, mergedPostings h' True c None)
                else if At P (h' ! 0) \<noteq> c
                     then Some (True, mergedPostings h' True (At P (h' ! 0)) None)
                     else mergedPostings_Next_loop P h' c)
          else
            (let h' = heap_Fix P (h[0 := cur]) 0
             in if At P (h' ! 0) \<noteq> c
                then Some (True, mergedPostings h' True (At P (h' ! 0)) None)
                else mergedPostings_Next_loop P h' c))"

declare mergedPostings_Next_loop.simps [code]

fun mergedPostings_Next ::
  "'s Postings \<Rightarrow> 's mergedPostings \<Rightarrow> (bool \<times> 's mergedPostings) option" where
  "mergedPostings_Next P (mergedPostings h initialized cur err) =
     (if length h = 0 \<or> err \<noteq> None then Some (False, mergedPostings h initialized cur err)
      else if \<not> initialized then
        (let h' = heap_Init P h
         in Some (True, mergedPostings h' True (At P (h' ! 0)) err))
      else mergedPostings_Next_loop P h cur)"

text \<open>The loop \<open>for it.cur < id\<close> of \<open>mergedPostings.Seek\<close>.\<close>

partial_function (option) mergedPostings_Seek_loop ::
  "'s Postings \<Rightarrow> 's list \<Rightarrow> SeriesRef \<Rightarrow> SeriesRef \<Rightarrow> (bool \<times> 's mergedPostings) option" where
  "mergedPostings_Seek_loop P h c ref =
     (if c < ref then
        (case Seek P (h ! 0) ref of
           None \<Rightarrow> None
         | Some (ok, cur) \<Rightarrow>
             if \<not> ok then
               (let h' = heap_Pop P (h[0 := cur])
                in if Err P cur \<noteq> None then Some (False, mergedPostings h' True c (Err P cur))
                   else if length h' = 0 then Some (False, mergedPostings h' True c None)
                   else mergedPostings_Seek_loop P h' (At P (h' ! 0)) ref)
             else
               (let h' = heap_Fix P (h[0 := cur]) 0
                in mergedPostings_Seek_loop P h' (At P (h' ! 0)) ref))
      else Some (True, mergedPostings h True c None))"

declare mergedPostings_Seek_loop.simps [code]

fun mergedPostings_Seek ::
  "'s Postings \<Rightarrow> 's mergedPostings \<Rightarrow> SeriesRef \<Rightarrow> (bool \<times> 's mergedPostings) option" where
  "mergedPostings_Seek P (mergedPostings h initialized cur err) ref =
     (if length h = 0 \<or> err \<noteq> None then Some (False, mergedPostings h initialized cur err)
      else if \<not> initialized then
        (case mergedPostings_Next P (mergedPostings h initialized cur err) of
           None \<Rightarrow> None
         | Some (ok, it) \<Rightarrow>
             if \<not> ok then Some (False, it)
             else (case it of mergedPostings h' initialized' cur' err' \<Rightarrow>
                     mergedPostings_Seek_loop P h' cur' ref))
      else mergedPostings_Seek_loop P h cur ref)"

definition mergedPostings_Postings :: "'s Postings \<Rightarrow> 's mergedPostings Postings" where
  "mergedPostings_Postings P =
     \<lparr> Next = mergedPostings_Next P,
       Seek = mergedPostings_Seek P,
       At = mergedPostings_At,
       Err = mergedPostings_Err,
       IsEmptyPostingsType = (\<lambda>it. False) \<rparr>"

definition Merge :: "'s Postings \<Rightarrow> 's list \<Rightarrow> (errPostings + 's + 's mergedPostings) option" where
  "Merge P its =
     (if length its = 0 then Some (Inl EmptyPostings)
      else if length its = 1 then Some (Inr (Inl (its ! 0)))
      else (case newMergedPostings P its of
              None \<Rightarrow> None
            | Some None \<Rightarrow> Some (Inl EmptyPostings)
            | Some (Some p) \<Rightarrow> Some (Inr (Inr p))))"

definition Merge_Postings :: "'s Postings \<Rightarrow> (errPostings + 's + 's mergedPostings) Postings" where
  "Merge_Postings P = dyn_Postings errPostings_Postings (dyn_Postings P (mergedPostings_Postings P))"


subsection \<open>Without\<close>

text \<open>The fields are \<open>full\<close>, \<open>remove\<close>, \<open>cur\<close>, \<open>initialized\<close>, \<open>fok\<close> and \<open>rok\<close>.\<close>

datatype ('f, 'r) removedPostings = removedPostings 'f 'r SeriesRef bool bool bool

definition newRemovedPostings :: "'f \<Rightarrow> 'r \<Rightarrow> ('f, 'r) removedPostings" where
  "newRemovedPostings full remove = removedPostings full remove 0 False False False"

fun removedPostings_At :: "('f, 'r) removedPostings \<Rightarrow> SeriesRef" where
  "removedPostings_At (removedPostings full remove cur initialized fok rok) = cur"

text \<open>The \<open>for\<close> loop of \<open>removedPostings.Next\<close>.\<close>

partial_function (option) removedPostings_Next_loop ::
  "'f Postings \<Rightarrow> 'r Postings \<Rightarrow> ('f, 'r) removedPostings
     \<Rightarrow> (bool \<times> ('f, 'r) removedPostings) option" where
  "removedPostings_Next_loop F R rp =
     (case rp of removedPostings full remove cur initialized fok rok \<Rightarrow>
        if \<not> fok then Some (False, rp)
        else if \<not> rok then
          (case Next F full of
             None \<Rightarrow> None
           | Some (fok', full') \<Rightarrow>
               Some (True, removedPostings full' remove (At F full) initialized fok' rok))
        else
          (let fcur = At F full; rcur = At R remove
           in if fcur < rcur then
                (case Next F full of
                   None \<Rightarrow> None
                 | Some (fok', full') \<Rightarrow>
                     Some (True, removedPostings full' remove fcur initialized fok' rok))
              else if rcur < fcur then
                (case Seek R remove fcur of
                   None \<Rightarrow> None
                 | Some (rok', remove') \<Rightarrow>
                     removedPostings_Next_loop F R
                       (removedPostings full remove' cur initialized fok rok'))
              else
                (case Next F full of
                   None \<Rightarrow> None
                 | Some (fok', full') \<Rightarrow>
                     removedPostings_Next_loop F R
                       (removedPostings full' remove cur initialized fok' rok))))"

declare removedPostings_Next_loop.simps [code]

fun removedPostings_Next ::
  "'f Postings \<Rightarrow> 'r Postings \<Rightarrow> ('f, 'r) removedPostings
     \<Rightarrow> (bool \<times> ('f, 'r) removedPostings) option" where
  "removedPostings_Next F R (removedPostings full remove cur initialized fok rok) =
     (if \<not> initialized then
        (case Next F full of
           None \<Rightarrow> None
         | Some (fok', full') \<Rightarrow>
             (case Next R remove of
                None \<Rightarrow> None
              | Some (rok', remove') \<Rightarrow>
                  removedPostings_Next_loop F R (removedPostings full' remove' cur True fok' rok')))
      else removedPostings_Next_loop F R (removedPostings full remove cur initialized fok rok))"

fun removedPostings_Seek ::
  "'f Postings \<Rightarrow> 'r Postings \<Rightarrow> ('f, 'r) removedPostings \<Rightarrow> SeriesRef
     \<Rightarrow> (bool \<times> ('f, 'r) removedPostings) option" where
  "removedPostings_Seek F R (removedPostings full remove cur initialized fok rok) ref =
     (if cur \<ge> ref then Some (True, removedPostings full remove cur initialized fok rok)
      else
        (case Seek F full ref of
           None \<Rightarrow> None
         | Some (fok', full') \<Rightarrow>
             (case Seek R remove ref of
                None \<Rightarrow> None
              | Some (rok', remove') \<Rightarrow>
                  removedPostings_Next F R (removedPostings full' remove' cur True fok' rok'))))"

fun removedPostings_Err :: "'f Postings \<Rightarrow> 'r Postings \<Rightarrow> ('f, 'r) removedPostings \<Rightarrow> error option" where
  "removedPostings_Err F R (removedPostings full remove cur initialized fok rok) =
     (if Err F full \<noteq> None then Err F full else Err R remove)"

definition removedPostings_Postings ::
  "'f Postings \<Rightarrow> 'r Postings \<Rightarrow> ('f, 'r) removedPostings Postings" where
  "removedPostings_Postings F R =
     \<lparr> Next = removedPostings_Next F R,
       Seek = removedPostings_Seek F R,
       At = removedPostings_At,
       Err = removedPostings_Err F R,
       IsEmptyPostingsType = (\<lambda>rp. False) \<rparr>"

definition Without ::
  "'f Postings \<Rightarrow> 'r Postings \<Rightarrow> 'f \<Rightarrow> 'r \<Rightarrow> errPostings + 'f + ('f, 'r) removedPostings" where
  "Without F R full drop' =
     (if IsEmptyPostingsType F full then Inl EmptyPostings
      else if IsEmptyPostingsType R drop' then Inr (Inl full)
      else Inr (Inr (newRemovedPostings full drop')))"

definition Without_Postings ::
  "'f Postings \<Rightarrow> 'r Postings \<Rightarrow> (errPostings + 'f + ('f, 'r) removedPostings) Postings" where
  "Without_Postings F R =
     dyn_Postings errPostings_Postings (dyn_Postings F (removedPostings_Postings F R))"

subsection \<open>ShardedPostings\<close>

text \<open>The fields are \<open>p\<close>, \<open>minOffset\<close>, \<open>maxOffset\<close> and \<open>initialized\<close>.\<close>

datatype 's ShardedPostings = ShardedPostings 's nat nat bool

text \<open>
  \<open>FingerprintOffsets.Range\<close> is declared outside this file: the lookup of the filter's
  bounds is the parameter \<open>offsets_Range\<close>.
\<close>

definition NewShardedPostings :: "'s \<Rightarrow> 'filter \<Rightarrow> ('filter \<Rightarrow> nat \<times> nat) \<Rightarrow> 's ShardedPostings" where
  "NewShardedPostings p fpFilter offsets_Range =
     (case offsets_Range fpFilter of (minVal, maxVal) \<Rightarrow> ShardedPostings p minVal maxVal False)"

fun ShardedPostings_Seek ::
  "'s Postings \<Rightarrow> 's ShardedPostings \<Rightarrow> SeriesRef \<Rightarrow> (bool \<times> 's ShardedPostings) option" where
  "ShardedPostings_Seek P (ShardedPostings p minOffset maxOffset initialized) v =
     (if v \<ge> maxOffset then Some (False, ShardedPostings p minOffset maxOffset initialized)
      else (let v' = (if v < minOffset then minOffset else v)
            in case Seek P p v' of
                 None \<Rightarrow> None
               | Some (res, p') \<Rightarrow> Some (res, ShardedPostings p' minOffset maxOffset initialized)))"

fun ShardedPostings_Next ::
  "'s Postings \<Rightarrow> 's ShardedPostings \<Rightarrow> (bool \<times> 's ShardedPostings) option" where
  "ShardedPostings_Next P (ShardedPostings p minOffset maxOffset initialized) =
     (if \<not> initialized then
        (case Next P p of
           None \<Rightarrow> None
         | Some (ok, p') \<Rightarrow>
             if \<not> ok then Some (False, ShardedPostings p' minOffset maxOffset True)
             else ShardedPostings_Seek P (ShardedPostings p' minOffset maxOffset True) 0)
      else
        (case Next P p of
           None \<Rightarrow> None
         | Some (ok, p') \<Rightarrow>
             if \<not> ok then Some (False, ShardedPostings p' minOffset maxOffset initialized)
             else if At P p' \<ge> maxOffset
                  then Some (False, ShardedPostings p' minOffset maxOffset initialized)
                  else Some (True, ShardedPostings p' minOffset maxOffset initialized)))"

fun ShardedPostings_At :: "'s Postings \<Rightarrow> 's ShardedPostings \<Rightarrow> SeriesRef" where
  "ShardedPostings_At P (ShardedPostings p minOffset maxOffset initialized) = At P p"

fun ShardedPostings_Err :: "'s Postings \<Rightarrow> 's ShardedPostings \<Rightarrow> error option" where
  "ShardedPostings_Err P (ShardedPostings p minOffset maxOffset initialized) = Err P p"

definition ShardedPostings_Postings :: "'s Postings \<Rightarrow> 's ShardedPostings Postings" where
  "ShardedPostings_Postings P =
     \<lparr> Next = ShardedPostings_Next P,
       Seek = ShardedPostings_Seek P,
       At = ShardedPostings_At P,
       Err = ShardedPostings_Err P,
       IsEmptyPostingsType = (\<lambda>sp. False) \<rparr>"

subsection \<open>Notions used to state the properties\<close>

text \<open>The keys of \<open>p.m\<close>, and the entry \<open>p.m[name][value]\<close> when the map has one.\<close>

fun store_names :: "MemPostings \<Rightarrow> string list" where
  "store_names (MemPostings m ordered) = map fst m"

definition postings_entry :: "MemPostings \<Rightarrow> string \<Rightarrow> string \<Rightarrow> SeriesRef list option" where
  "postings_entry p name val = map_of (inner_map p name) val"

text \<open>
  A sorted list with \<open>k\<close> copies of \<open>r\<close> put in after its last element not above \<open>r\<close>, and
  what is left of a list once the members of \<open>D\<close> are gone (\<open>None\<close>: the entry goes).
\<close>

definition inserted :: "nat \<Rightarrow> SeriesRef \<Rightarrow> SeriesRef list \<Rightarrow> SeriesRef list" where
  "inserted k r xs = takeWhile (\<lambda>x. x \<le> r) xs @ replicate k r @ dropWhile (\<lambda>x. x \<le> r) xs"

definition deleted_from :: "SeriesRef set \<Rightarrow> SeriesRef list \<Rightarrow> SeriesRef list option" where
  "deleted_from D l =
     (if set l \<inter> D = {} then Some l
      else if filter (\<lambda>r. r \<notin> D) l = [] then None
      else Some (filter (\<lambda>r. r \<notin> D) l))"

text \<open>
  A conforming iterator, as the Postings contract describes it. \<open>iter s pos xs\<close> reads:
  the state \<open>s\<close> stands before its first value (\<open>pos = None\<close>) or at the value \<open>c\<close>
  (\<open>pos = Some c\<close>), and the strictly increasing \<open>xs\<close> are the values still to come.
  In such a state \<open>Err\<close> is nil; \<open>Next\<close> moves to the first of \<open>xs\<close>, or returns false at
  the end, still without an error; \<open>Seek(v)\<close> with \<open>v\<close> at or below the current value
  changes nothing and returns true, and otherwise moves to the first value that is at
  least \<open>v\<close> or returns false when there is none; the empty sentinel has no values.
  Nothing is asked of \<open>Seek(0)\<close> before the first value, nor of a state after a call
  that returned false.
\<close>

definition conforming ::
  "'s Postings \<Rightarrow> ('s \<Rightarrow> SeriesRef option \<Rightarrow> SeriesRef list \<Rightarrow> bool) \<Rightarrow> bool" where
  "conforming P iter =
     (\<forall>s pos xs. iter s pos xs \<longrightarrow>
        sorted_wrt (<) xs
      \<and> (\<forall>c. pos = Some c \<longrightarrow> At P s = c \<and> (\<forall>x \<in> set xs. c < x))
      \<and> Err P s = None
      \<and> (IsEmptyPostingsType P s \<longrightarrow> xs = [])
      \<and> (case xs of
            [] \<Rightarrow> (\<exists>s'. Next P s = Some (False, s') \<and> Err P s' = None)
          | x # r \<Rightarrow> (\<exists>s'. Next P s = Some (True, s') \<and> iter s' (Some x) r))
      \<and> (\<forall>v c. pos = Some c \<and> v \<le> c \<longrightarrow> Seek P s v = Some (True, s))
      \<and> (\<forall>v. (case pos of None \<Rightarrow> 0 < v | Some c \<Rightarrow> c < v) \<longrightarrow>
            (case dropWhile (\<lambda>x. x < v) xs of
               [] \<Rightarrow> (\<exists>s'. Seek P s v = Some (False, s') \<and> Err P s' = None)
             | y # ys \<Rightarrow> (\<exists>s'. Seek P s v = Some (True, s') \<and> iter s' (Some y) ys))))"

text \<open>
  The list-backed iterator over a strictly increasing list: new (\<open>cur\<close> is 0), or at
  \<open>cur\<close> with larger values left.
\<close>

fun ListPostings_iter :: "ListPostings \<Rightarrow> SeriesRef option \<Rightarrow> SeriesRef list \<Rightarrow> bool" where
  "ListPostings_iter (ListPostings list cur) pos xs =
     (xs = list \<and> sorted_wrt (<) list \<and>
      (case pos of None \<Rightarrow> cur = 0 | Some c \<Rightarrow> cur = c \<and> (\<forall>x \<in> set list. c < x)))"

text \<open>
  The part of the contract that \<open>ExpandPostings\<close> uses: \<open>rel s xs\<close> says that iterating
  from \<open>s\<close> with \<open>Next\<close> gives the values \<open>xs\<close> and ends without an error.
\<close>

definition steps :: "'s Postings \<Rightarrow> ('s \<Rightarrow> SeriesRef list \<Rightarrow> bool) \<Rightarrow> bool" where
  "steps P rel =
     (\<forall>s xs. rel s xs \<longrightarrow>
        (case xs of
           [] \<Rightarrow> (\<exists>s'. Next P s = Some (False, s') \<and> Err P s' = None)
         | x # r \<Rightarrow> (\<exists>s'. Next P s = Some (True, s') \<and> At P s' = x \<and> rel s' r)))"

text \<open>
  An input after a call that returned \<open>ok\<close>: at the first of the values \<open>avail\<close> with the
  others still to come, or at its end without an error.
\<close>

definition positioned ::
  "'s Postings \<Rightarrow> ('s \<Rightarrow> SeriesRef option \<Rightarrow> SeriesRef list \<Rightarrow> bool)
     \<Rightarrow> 's \<Rightarrow> bool \<Rightarrow> SeriesRef list \<Rightarrow> bool" where
  "positioned P iter s ok avail =
     (if ok then (\<exists>c xs. avail = c # xs \<and> iter s (Some c) xs)
      else avail = [] \<and> Err P s = None)"

text \<open>The values of \<open>xs\<close> that are not in \<open>ys\<close>, in the order of \<open>xs\<close>.\<close>

definition without :: "SeriesRef list \<Rightarrow> SeriesRef list \<Rightarrow> SeriesRef list" where
  "without xs ys = filter (\<lambda>x. x \<notin> set ys) xs"

text \<open>
  The states of a \<open>removedPostings\<close> over two conforming inputs from which the values
  \<open>out\<close> are still to come: new, over inputs with the values \<open>fa\<close> and \<open>ra\<close> to come, or
  initialized, with both inputs one step ahead.
\<close>

definition removed_rel ::
  "'f Postings \<Rightarrow> 'r Postings
     \<Rightarrow> ('f \<Rightarrow> SeriesRef option \<Rightarrow> SeriesRef list \<Rightarrow> bool)
     \<Rightarrow> ('r \<Rightarrow> SeriesRef option \<Rightarrow> SeriesRef list \<Rightarrow> bool)
     \<Rightarrow> ('f, 'r) removedPostings \<Rightarrow> SeriesRef list \<Rightarrow> bool" where
  "removed_rel F R iterF iterR rp out =
     (case rp of removedPostings full remove cur initialized fok rok \<Rightarrow>
        \<exists>fa ra. out = without fa ra \<and>
          (if initialized
           then positioned F iterF full fok fa \<and> positioned R iterR remove rok ra
           else (\<exists>pf pr. iterF full pf fa \<and> iterR remove pr ra)))"

text \<open>The values of the first list that are in every other list, in its order.\<close>

definition common :: "SeriesRef list list \<Rightarrow> SeriesRef list" where
  "common xss = (case xss of [] \<Rightarrow> [] | xs # rest \<Rightarrow> filter (\<lambda>x. \<forall>ys \<in> set rest. x \<in> set ys) xs)"

text \<open>
  The states of an \<open>intersectPostings\<close> over conforming inputs from which the values
  \<open>out\<close> are still to come: \<open>it.cur\<close> is not above any value still to come from an input.
\<close>

definition intersect_rel ::
  "'s Postings \<Rightarrow> ('s \<Rightarrow> SeriesRef option \<Rightarrow> SeriesRef list \<Rightarrow> bool)
     \<Rightarrow> 's intersectPostings \<Rightarrow> SeriesRef list \<Rightarrow> bool" where
  "intersect_rel P iter it out =
     (case it of intersectPostings arr cur \<Rightarrow>
        \<exists>xss. arr \<noteq> [] \<and> list_all2 (\<lambda>s xs. \<exists>pos. iter s pos xs) arr xss
            \<and> (\<forall>xs \<in> set xss. \<forall>x \<in> set xs. cur \<le> x)
            \<and> out = common xss)"

section \<open>Properties\<close>

subsection \<open>Insertion into an ordered store\<close>

lemma repair_gen:
  "sorted ys \<Longrightarrow> repair (ys @ r # zs) (length ys) =
     takeWhile (\<lambda>x. x \<le> r) ys @ r # dropWhile (\<lambda>x. x \<le> r) ys @ zs"
proof (induction ys arbitrary: zs rule: rev_induct)
  case Nil
  then show ?case by (subst repair.simps) simp
next
  case (snoc y ys)
  have s: "sorted ys" and le: "\<forall>x\<in>set ys. x \<le> y"
    using snoc.prems by (auto simp: sorted_append)
  show ?case
  proof (cases "y \<le> r")
    case True
    then have all: "\<forall>x\<in>set (ys @ [y]). x \<le> r" using le by auto
    have "repair ((ys @ [y]) @ r # zs) (length (ys @ [y])) = (ys @ [y]) @ r # zs"
      using True by (subst repair.simps) (simp add: nth_append)
    moreover have "takeWhile (\<lambda>x. x \<le> r) (ys @ [y]) = ys @ [y]"
      using all by (simp add: takeWhile_eq_all_conv)
    moreover have "dropWhile (\<lambda>x. x \<le> r) (ys @ [y]) = []"
      using all by simp
    ultimately show ?thesis by simp
  next
    case False
    have step: "repair ((ys @ [y]) @ r # zs) (length (ys @ [y])) = repair (ys @ r # y # zs) (length ys)"
      using False by (subst repair.simps) (simp add: nth_append list_update_append)
    have tw: "takeWhile (\<lambda>x. x \<le> r) (ys @ [y]) = takeWhile (\<lambda>x. x \<le> r) ys"
      proof (cases "\<forall>x\<in>set ys. x \<le> r")
      case True
      then have e: "takeWhile (\<lambda>x. x \<le> r) ys = ys" by (simp add: takeWhile_eq_all_conv)
      show ?thesis using True \<open>\<not> y \<le> r\<close> by (simp add: takeWhile_append e)
    next
      case False
      then show ?thesis by (auto simp: takeWhile_append)
    qed
    have dw: "dropWhile (\<lambda>x. x \<le> r) (ys @ [y]) = dropWhile (\<lambda>x. x \<le> r) ys @ [y]"
      using False by (auto simp: dropWhile_append)
    show ?thesis unfolding step tw dw using snoc.IH[OF s, of "y # zs"] by simp
  qed
qed

lemma inserted_0 [simp]: "inserted 0 r xs = xs"
  by (simp add: inserted_def)

lemma dropWhile_Cons_not: "dropWhile P xs = d # ds \<Longrightarrow> \<not> P d"
  using hd_dropWhile[of P xs] by auto

lemma takeWhile_before_dropWhile:
  assumes "\<forall>x\<in>set ys. P x"
  shows "takeWhile P (ys @ dropWhile P xs) = ys"
proof (cases "dropWhile P xs")
  case Nil
  show ?thesis unfolding Nil using assms by (simp add: takeWhile_eq_all_conv)
next
  case (Cons d ds)
  then have "\<not> P d" by (rule dropWhile_Cons_not)
  then show ?thesis unfolding Cons using assms by (simp add: takeWhile_append2)
qed

lemma dropWhile_before_dropWhile:
  assumes "\<forall>x\<in>set ys. P x"
  shows "dropWhile P (ys @ dropWhile P xs) = dropWhile P xs"
proof (cases "dropWhile P xs")
  case Nil
  show ?thesis unfolding Nil using assms by simp
next
  case (Cons d ds)
  then have "\<not> P d" by (rule dropWhile_Cons_not)
  then show ?thesis unfolding Cons using assms by (simp add: dropWhile_append2)
qed

lemma dropWhile_le_greater:
  assumes "sorted xs"
  shows "\<forall>x\<in>set (dropWhile (\<lambda>x. x \<le> r) xs). (r::nat) < x"
proof (cases "dropWhile (\<lambda>x. x \<le> r) xs")
  case Nil
  show ?thesis unfolding Nil by simp
next
  case (Cons d ds)
  have "sorted (dropWhile (\<lambda>x. x \<le> r) xs)" using assms by (rule sorted_dropWhile)
  moreover have "\<not> d \<le> r" using Cons by (rule dropWhile_Cons_not)
  ultimately show ?thesis unfolding Cons by auto
qed

lemma sorted_inserted: "sorted xs \<Longrightarrow> sorted (inserted k r xs)"
proof -
  assume s: "sorted xs"
  have a: "\<forall>x\<in>set (takeWhile (\<lambda>x. x \<le> r) xs). x \<le> r"
    by (auto dest: set_takeWhileD)
  have b: "\<forall>x\<in>set (dropWhile (\<lambda>x. x \<le> r) xs). r < x"
    using s by (rule dropWhile_le_greater)
  have c: "sorted (takeWhile (\<lambda>x. x \<le> r) xs)" "sorted (dropWhile (\<lambda>x. x \<le> r) xs)"
    using s by (auto intro: sorted_takeWhile sorted_dropWhile)
  show ?thesis
    unfolding inserted_def using a b c
    by (fastforce simp: sorted_append)
qed

lemma inserted_inserted: "inserted j r (inserted k r xs) = inserted (j + k) r xs"
proof -
  let ?P = "\<lambda>x. x \<le> r"
  let ?t = "takeWhile ?P xs" and ?d = "dropWhile ?P xs"
  have a: "\<forall>x\<in>set (?t @ replicate k r). ?P x"
    by (auto dest: set_takeWhileD)
  have t1: "takeWhile ?P ((?t @ replicate k r) @ ?d) = ?t @ replicate k r"
    using a by (rule takeWhile_before_dropWhile)
  have d1: "dropWhile ?P ((?t @ replicate k r) @ ?d) = ?d"
    using a by (rule dropWhile_before_dropWhile)
  have "inserted j r (inserted k r xs) = (?t @ replicate k r) @ replicate j r @ ?d"
    unfolding inserted_def[of k] unfolding inserted_def[of j] using t1 d1 by simp
  then show ?thesis
    by (simp add: inserted_def replicate_add[symmetric] add.commute)
qed

lemma postings_list_addFor:
  "postings_list (addFor r (n, v) p) n' v' =
     (if n' = n \<and> v' = v
      then (if is_ordered p
            then repair (postings_list p n v @ [r]) (length (postings_list p n v))
            else postings_list p n v @ [r])
      else postings_list p n' v')"
  by (cases p) (auto simp: postings_list_def Let_def update_conv' split: option.splits)

lemma is_ordered_addFor [simp]: "is_ordered (addFor r l p) = is_ordered p"
  by (cases p; cases l) (simp add: Let_def)

lemma addFor_sorted_list:
  assumes "is_ordered p" "sorted (postings_list p n v)"
  shows "postings_list (addFor r l p) n v =
           inserted (if l = (n, v) then 1 else 0) r (postings_list p n v)"
proof (cases l)
  case (Pair a b)
  have rp: "repair (postings_list p n v @ [r]) (length (postings_list p n v)) =
            inserted 1 r (postings_list p n v)"
    using repair_gen[OF assms(2), of r "[]"] by (simp add: inserted_def)
  show ?thesis
  proof (cases "l = (n, v)")
    case True
    then have "a = n" "b = v" using Pair by auto
    then show ?thesis
      using True assms(1) rp by (simp add: Pair postings_list_addFor del: One_nat_def)
  next
    case False
    then have "\<not> (n = a \<and> v = b)" using Pair by auto
    then show ?thesis
      unfolding Pair by (simp only: postings_list_addFor if_False inserted_0 prod.inject) auto
  qed
qed

lemma foldl_addFor_sorted:
  assumes "is_ordered p" "\<forall>n v. sorted (postings_list p n v)"
  shows "is_ordered (foldl (\<lambda>p l. addFor r l p) p ls) \<and>
         (\<forall>n v. postings_list (foldl (\<lambda>p l. addFor r l p) p ls) n v =
                  inserted (count_list ls (n, v)) r (postings_list p n v))"
  using assms
proof (induction ls arbitrary: p)
  case Nil
  then show ?case by simp
next
  case (Cons l ls)
  let ?q = "addFor r l p"
  have q1: "is_ordered ?q" using Cons.prems by simp
  have q2: "\<And>n v. postings_list ?q n v = inserted (if l = (n, v) then 1 else 0) r (postings_list p n v)"
    using Cons.prems addFor_sorted_list by blast
  have q3: "\<forall>n v. sorted (postings_list ?q n v)"
    using q2 Cons.prems by (simp add: sorted_inserted)
  from Cons.IH[OF q1 q3] show ?case
    by (simp add: q2 inserted_inserted del: One_nat_def)
qed


text \<open>
  C8. In a store in the ordered (serving) state whose postings lists are all sorted, one
  \<open>Add\<close> leaves the store ordered and every list sorted: each list gets the new
  reference once for each time its label is visited (the label set, then the all-postings
  key), after its last element that is not above the reference; the elements that were
  there keep their order, and the lists of other labels stay as they were.
\<close>

theorem Add_keeps_sorted:
  assumes "is_ordered p" and "\<forall>n v. sorted (postings_list p n v)"
  shows "is_ordered (Add r lset p) \<and>
         (\<forall>n v. sorted (postings_list (Add r lset p) n v)) \<and>
         (\<forall>n v. postings_list (Add r lset p) n v =
            takeWhile (\<lambda>x. x \<le> r) (postings_list p n v)
            @ replicate (count_list (lset @ [allPostingsKey]) (n, v)) r
            @ dropWhile (\<lambda>x. x \<le> r) (postings_list p n v))"
proof -
  let ?q = "foldl (\<lambda>p l. addFor r l p) p lset"
  have f: "is_ordered ?q" "\<And>n v. postings_list ?q n v = inserted (count_list lset (n, v)) r (postings_list p n v)"
    using foldl_addFor_sorted[OF assms] by auto
  have s: "\<And>n v. sorted (postings_list ?q n v)"
    using f(2) assms(2) by (simp add: sorted_inserted)
  have e: "\<And>n v. postings_list (Add r lset p) n v =
             inserted (count_list (lset @ [allPostingsKey]) (n, v)) r (postings_list p n v)"
    unfolding Add_def
    using addFor_sorted_list[OF f(1) s, where r = r and l = allPostingsKey]
    by (simp add: f(2) inserted_inserted add.commute del: One_nat_def)
  have o: "is_ordered (Add r lset p)" unfolding Add_def using f(1) by simp
  show ?thesis
    using o e assms(2) sorted_inserted by (auto simp: inserted_def[symmetric])
qed

theorem Add_keeps_sorted_witness:
  "postings_list (Add 3 [(''env'', ''prod'')]
      (MemPostings [(''env'', [(''prod'', [1, 5])]), ([], [([], [1, 2, 5])])] True)) ''env'' ''prod'' = [1, 3, 5]
   \<and> postings_list (Add 3 [(''env'', ''prod'')]
      (MemPostings [(''env'', [(''prod'', [1, 5])]), ([], [([], [1, 2, 5])])] True)) [] [] = [1, 2, 3, 5]"
proof -
  let ?p = "MemPostings [(''env'', [(''prod'', [1, 5])]), ([], [([], [1, 2, 5])])] True"
  have h1: "is_ordered ?p" by simp
  have h2: "\<forall>n v. sorted (postings_list ?p n v)"
    by (simp add: postings_list_def)
  show ?thesis
    using Add_keeps_sorted[OF h1 h2, of 3 "[(''env'', ''prod'')]"]
    by (simp add: postings_list_def allPostingsKey_def)
qed

subsection \<open>Delete\<close>

lemma deleted_from_idem:
  "Option.bind (deleted_from D y) (deleted_from D) = deleted_from D y"
  by (auto simp: deleted_from_def)

lemma inner_map_Nil_iff: "inner_map p n = [] \<longleftrightarrow> (\<forall>v. postings_entry p n v = None)"
proof (cases "inner_map p n")
  case Nil
  then show ?thesis by (simp add: postings_entry_def)
next
  case (Cons a e)
  then have "postings_entry p n (fst a) = Some (snd a)"
    by (cases a) (simp add: postings_entry_def)
  then show ?thesis using Cons by auto
qed

lemma postings_entry_None_iff: "postings_entry p n v = None \<longleftrightarrow> v \<notin> set (LabelValues p n)"
  by (simp add: postings_entry_def LabelValues_def map_of_eq_None_iff)

lemma store_names_iff: "n \<in> set (store_names (MemPostings m b)) \<longleftrightarrow> map_of m n \<noteq> None"
  by (simp add: map_of_eq_None_iff)

lemma Delete_value_entry:
  "postings_entry (Delete_value D n p l) n' v' =
     (if n' = n \<and> v' = l then Option.bind (postings_entry p n l) (deleted_from D)
      else postings_entry p n' v')"
  by (cases p)
     (auto simp: postings_entry_def Let_def update_conv' delete_conv' deleted_from_def
           filter_empty_conv
           split: option.splits)

lemma Delete_value_names: "set (store_names (Delete_value D n p l)) = set (store_names p)"
proof (cases p)
  case (MemPostings m b)
  show ?thesis
  proof (cases "map_of m n")
    case None
    then show ?thesis using MemPostings by (simp add: Let_def)
  next
    case (Some e)
    then have "n \<in> fst ` set m" by (metis map_of_eq_None_iff option.distinct(1))
    then show ?thesis using MemPostings Some
      by (auto simp: Let_def dom_update)
  qed
qed

lemma foldl_Delete_value_entry:
  "postings_entry (foldl (Delete_value D n) p ks) n' v' =
     (if n' = n \<and> v' \<in> set ks then Option.bind (postings_entry p n v') (deleted_from D)
      else postings_entry p n' v')"
proof (induction ks arbitrary: p)
  case Nil
  then show ?case by simp
next
  case (Cons k ks)
  show ?case
    by (auto simp: Cons.IH Delete_value_entry deleted_from_idem)
qed

lemma foldl_Delete_value_names:
  "set (store_names (foldl (Delete_value D n) p ks)) = set (store_names p)"
  by (induction ks arbitrary: p) (simp_all add: Delete_value_names)

lemma entry_delete_name:
  "postings_entry (case p of MemPostings m b \<Rightarrow> MemPostings (AList.delete n m) b) n' v' =
     (if n' = n then None else postings_entry p n' v')"
  by (cases p) (simp add: postings_entry_def delete_conv')

lemma Delete_name_entry:
  "postings_entry (Delete_name D p n) n' v' =
     (if n' = n then Option.bind (postings_entry p n v') (deleted_from D)
      else postings_entry p n' v')"
proof -
  let ?q = "foldl (Delete_value D n) p (map fst (inner_map p n))"
  have q: "\<And>v'. postings_entry ?q n v' = Option.bind (postings_entry p n v') (deleted_from D)"
  proof -
    fix v'
    show "postings_entry ?q n v' = Option.bind (postings_entry p n v') (deleted_from D)"
    proof (cases "v' \<in> set (map fst (inner_map p n))")
      case True
      then show ?thesis by (simp add: foldl_Delete_value_entry)
    next
      case False
      then have "postings_entry p n v' = None"
        by (simp add: postings_entry_None_iff LabelValues_def)
      then show ?thesis using False by (simp add: foldl_Delete_value_entry)
    qed
  qed
  show ?thesis
  proof (cases "inner_map ?q n = []")
    case True
    then have "\<And>v. postings_entry ?q n v = None" by (simp add: inner_map_Nil_iff)
    then show ?thesis using True q[of v']
      by (auto simp: Delete_name_def Let_def entry_delete_name foldl_Delete_value_entry)
  next
    case False
    then show ?thesis using q[of v']
      by (auto simp: Delete_name_def Let_def foldl_Delete_value_entry)
  qed
qed

lemma names_delete_name:
  "set (store_names (case p of MemPostings m b \<Rightarrow> MemPostings (AList.delete n m) b)) =
     set (store_names p) - {n}"
  by (cases p) (auto simp: delete_keys)

lemma Delete_name_names:
  "set (store_names (Delete_name D p n)) =
     (if \<forall>v. postings_entry (Delete_name D p n) n v = None
      then set (store_names p) - {n} else set (store_names p))"
proof -
  let ?q = "foldl (Delete_value D n) p (map fst (inner_map p n))"
  show ?thesis
  proof (cases "inner_map ?q n = []")
    case True
    then have "Delete_name D p n = (case ?q of MemPostings m b \<Rightarrow> MemPostings (AList.delete n m) b)"
      by (simp add: Delete_name_def Let_def)
    then show ?thesis
      by (simp add: names_delete_name foldl_Delete_value_names entry_delete_name)
  next
    case False
    then have e: "Delete_name D p n = ?q" by (simp add: Delete_name_def Let_def)
    have "\<not> (\<forall>v. postings_entry ?q n v = None)" using False by (simp add: inner_map_Nil_iff)
    then show ?thesis unfolding e by (auto simp: foldl_Delete_value_names)
  qed
qed

lemma foldl_Delete_name_entry:
  "postings_entry (foldl (Delete_name D) p ks) n v =
     (if n \<in> set ks then Option.bind (postings_entry p n v) (deleted_from D)
      else postings_entry p n v)"
proof (induction ks arbitrary: p)
  case Nil
  then show ?case by simp
next
  case (Cons k ks)
  show ?case
    by (auto simp: Cons.IH Delete_name_entry deleted_from_idem)
qed

lemma foldl_Delete_name_names:
  "set (store_names (foldl (Delete_name D) p ks)) =
     set (store_names p) - {n \<in> set ks. \<forall>v. postings_entry (foldl (Delete_name D) p ks) n v = None}"
proof (induction ks arbitrary: p)
  case Nil
  then show ?case by simp
next
  case (Cons k ks)
  let ?q = "Delete_name D p k"
  have a: "\<And>v. postings_entry (foldl (Delete_name D) ?q ks) k v = postings_entry ?q k v"
    by (simp add: foldl_Delete_name_entry Delete_name_entry deleted_from_idem)
  show ?case
    using Cons.IH[of ?q] Delete_name_names[of D p k] a
    by (auto split: if_splits)
qed

lemma entry_None_not_name:
  "n \<notin> set (store_names p) \<Longrightarrow> postings_entry p n v = None"
proof (cases p)
  case (MemPostings m b)
  assume "n \<notin> set (store_names p)"
  then have "map_of m n = None" using MemPostings by (simp add: map_of_eq_None_iff)
  then show ?thesis using MemPostings by (simp add: postings_entry_def)
qed

lemma Delete_entry:
  "postings_entry (Delete D p) n v = Option.bind (postings_entry p n v) (deleted_from D)"
proof (cases p)
  case (MemPostings m b)
  show ?thesis
  proof (cases "n \<in> set (map fst m)")
    case True
    then show ?thesis using MemPostings by (simp add: foldl_Delete_name_entry)
  next
    case False
    then have "postings_entry p n v = None"
      using MemPostings entry_None_not_name[of n p v] by simp
    then show ?thesis using MemPostings False by (simp add: foldl_Delete_name_entry)
  qed
qed

lemma Delete_names:
  "n \<in> set (store_names (Delete D p)) \<longleftrightarrow>
     n \<in> set (store_names p) \<and> (\<exists>v. postings_entry (Delete D p) n v \<noteq> None)"
proof (cases p)
  case (MemPostings m b)
  have "set (store_names (Delete D p)) =
          set (store_names p) - {n \<in> set (map fst m). \<forall>v. postings_entry (Delete D p) n v = None}"
    using foldl_Delete_name_names[of D p "map fst m"] MemPostings by simp
  then show ?thesis using MemPostings by auto
qed


text \<open>
  C9. After \<open>Delete\<close> every postings list is what it was without the deleted references,
  in the same order; a list with no deleted reference stays as it is; an entry whose list
  becomes empty is gone from the inner map (so its value is not among \<open>LabelValues\<close>), and
  a name whose inner map has no entry left is gone from the store.
\<close>

theorem Delete_removes:
  "(\<forall>n v. postings_entry (Delete D p) n v =
       (case postings_entry p n v of
          None \<Rightarrow> None
        | Some l \<Rightarrow> if set l \<inter> D = {} then Some l
                    else if filter (\<lambda>r. r \<notin> D) l = [] then None
                    else Some (filter (\<lambda>r. r \<notin> D) l)))
   \<and> (\<forall>n v. postings_list (Delete D p) n v = filter (\<lambda>r. r \<notin> D) (postings_list p n v))
   \<and> (\<forall>n v. v \<in> set (LabelValues (Delete D p) n) \<longleftrightarrow> postings_entry (Delete D p) n v \<noteq> None)
   \<and> (\<forall>n. n \<in> set (store_names (Delete D p)) \<longleftrightarrow>
          n \<in> set (store_names p) \<and> (\<exists>v. postings_entry (Delete D p) n v \<noteq> None))"
proof -
  have a: "\<And>n v. postings_entry (Delete D p) n v =
       (case postings_entry p n v of
          None \<Rightarrow> None
        | Some l \<Rightarrow> if set l \<inter> D = {} then Some l
                    else if filter (\<lambda>r. r \<notin> D) l = [] then None
                    else Some (filter (\<lambda>r. r \<notin> D) l))"
    by (simp add: Delete_entry deleted_from_def split: option.splits)
  have pl: "\<And>q n v. postings_list q n v = (case postings_entry q n v of None \<Rightarrow> [] | Some l \<Rightarrow> l)"
    by (simp add: postings_list_def postings_entry_def)
  have f: "\<And>l. set l \<inter> D = {} \<Longrightarrow> filter (\<lambda>r. r \<notin> D) l = l"
    by (rule filter_True) auto
  have b: "\<And>n v. postings_list (Delete D p) n v = filter (\<lambda>r. r \<notin> D) (postings_list p n v)"
    unfolding pl a by (auto simp: f split: option.splits)
  have c: "\<And>n v. v \<in> set (LabelValues (Delete D p) n) \<longleftrightarrow> postings_entry (Delete D p) n v \<noteq> None"
    by (simp add: postings_entry_None_iff)
  show ?thesis
    using a b c Delete_names by blast
qed

theorem Delete_removes_witness:
  "''prod'' \<notin> set (LabelValues (Delete {3}
      (MemPostings [(''env'', [(''prod'', [3]), (''dev'', [1, 2])]), ([], [([], [1, 2, 3])])] True)) ''env'')
   \<and> ''dev'' \<in> set (LabelValues (Delete {3}
      (MemPostings [(''env'', [(''prod'', [3]), (''dev'', [1, 2])]), ([], [([], [1, 2, 3])])] True)) ''env'')
   \<and> postings_list (Delete {3}
      (MemPostings [(''env'', [(''prod'', [3]), (''dev'', [1, 2])]), ([], [([], [1, 2, 3])])] True)) [] [] = [1, 2]"
  using Delete_removes[of "{3}" "MemPostings [(''env'', [(''prod'', [3]), (''dev'', [1, 2])]), ([], [([], [1, 2, 3])])] True"]
  by (simp add: postings_entry_def postings_list_def LabelValues_def)

subsection \<open>The method tables\<close>

lemma errPostings_sel [simp]:
  "Next errPostings_Postings e = Some (False, e)"
  "Seek errPostings_Postings e v = Some (False, e)"
  "At errPostings_Postings e = 0"
  "Err errPostings_Postings = errPostings_Err"
  "IsEmptyPostingsType errPostings_Postings e = (e = emptyPostings)"
  by (simp_all add: errPostings_Postings_def)

lemma ListPostings_sel [simp]:
  "Next ListPostings_Postings it = Some (ListPostings_Next it)"
  "Seek ListPostings_Postings it x = Some (ListPostings_Seek it x)"
  "At ListPostings_Postings = ListPostings_At"
  "Err ListPostings_Postings it = None"
  "IsEmptyPostingsType ListPostings_Postings it = False"
  by (simp_all add: ListPostings_Postings_def)

lemma BigEndianPostings_sel [simp]:
  "Next BigEndianPostings_Postings it = Some (BigEndianPostings_Next it)"
  "Seek BigEndianPostings_Postings it x = Some (BigEndianPostings_Seek it x)"
  "At BigEndianPostings_Postings = BigEndianPostings_At"
  "Err BigEndianPostings_Postings it = None"
  "IsEmptyPostingsType BigEndianPostings_Postings it = False"
  by (simp_all add: BigEndianPostings_Postings_def)

lemma dyn_Postings_sel [simp]:
  "Next (dyn_Postings A B) (Inl a) = map_option (\<lambda>(ok, a'). (ok, Inl a')) (Next A a)"
  "Next (dyn_Postings A B) (Inr b) = map_option (\<lambda>(ok, b'). (ok, Inr b')) (Next B b)"
  "Seek (dyn_Postings A B) (Inl a) v = map_option (\<lambda>(ok, a'). (ok, Inl a')) (Seek A a v)"
  "Seek (dyn_Postings A B) (Inr b) v = map_option (\<lambda>(ok, b'). (ok, Inr b')) (Seek B b v)"
  "At (dyn_Postings A B) (Inl a) = At A a"
  "At (dyn_Postings A B) (Inr b) = At B b"
  "Err (dyn_Postings A B) (Inl a) = Err A a"
  "Err (dyn_Postings A B) (Inr b) = Err B b"
  "IsEmptyPostingsType (dyn_Postings A B) (Inl a) = IsEmptyPostingsType A a"
  "IsEmptyPostingsType (dyn_Postings A B) (Inr b) = IsEmptyPostingsType B b"
  by (simp_all add: dyn_Postings_def)

lemma intersectPostings_sel [simp]:
  "Next (intersectPostings_Postings P) = intersectPostings_Next P"
  "Seek (intersectPostings_Postings P) = intersectPostings_Seek P"
  "At (intersectPostings_Postings P) = intersectPostings_At"
  "Err (intersectPostings_Postings P) = intersectPostings_Err P"
  "IsEmptyPostingsType (intersectPostings_Postings P) it = False"
  by (simp_all add: intersectPostings_Postings_def)

lemma mergedPostings_sel [simp]:
  "Next (mergedPostings_Postings P) = mergedPostings_Next P"
  "Seek (mergedPostings_Postings P) = mergedPostings_Seek P"
  "At (mergedPostings_Postings P) = mergedPostings_At"
  "Err (mergedPostings_Postings P) = mergedPostings_Err"
  "IsEmptyPostingsType (mergedPostings_Postings P) it = False"
  by (simp_all add: mergedPostings_Postings_def)

lemma removedPostings_sel [simp]:
  "Next (removedPostings_Postings F R) = removedPostings_Next F R"
  "Seek (removedPostings_Postings F R) = removedPostings_Seek F R"
  "At (removedPostings_Postings F R) = removedPostings_At"
  "Err (removedPostings_Postings F R) = removedPostings_Err F R"
  "IsEmptyPostingsType (removedPostings_Postings F R) rp = False"
  by (simp_all add: removedPostings_Postings_def)

lemma ShardedPostings_sel [simp]:
  "Next (ShardedPostings_Postings P) = ShardedPostings_Next P"
  "Seek (ShardedPostings_Postings P) = ShardedPostings_Seek P"
  "At (ShardedPostings_Postings P) = ShardedPostings_At P"
  "Err (ShardedPostings_Postings P) = ShardedPostings_Err P"
  "IsEmptyPostingsType (ShardedPostings_Postings P) sp = False"
  by (simp_all add: ShardedPostings_Postings_def)

subsection \<open>The shard bounds\<close>

text \<open>
  C10. \<open>ShardedPostings.Seek\<close> compares only the target with \<open>maxOffset\<close>: for a target
  below \<open>maxOffset\<close> its result is the result of the inner \<open>Seek\<close> to the target raised to
  \<open>minOffset\<close>, whatever element that reaches. For the inner values 5 and 25 and the bounds
  [10, 20), \<open>Seek(12)\<close> returns true and \<open>At()\<close> is 25.
\<close>

theorem ShardedPostings_Seek_unchecked:
  "(\<forall>P p mn mx ini v. v < mx \<longrightarrow>
      ShardedPostings_Seek P (ShardedPostings p mn mx ini) v =
        map_option (\<lambda>(res, p'). (res, ShardedPostings p' mn mx ini)) (Seek P p (max v mn)))
   \<and> (\<exists>xs mn mx v sp.
        sorted_wrt (<) xs \<and> v < mx
        \<and> Seek (ShardedPostings_Postings ListPostings_Postings)
             (NewShardedPostings (newListPostings xs) () (\<lambda>f. (mn, mx))) v = Some (True, sp)
        \<and> At (ShardedPostings_Postings ListPostings_Postings) sp \<ge> mx)"
proof -
  have a: "\<And>(P :: 'a Postings) p mn mx ini v. v < mx \<Longrightarrow>
      ShardedPostings_Seek P (ShardedPostings p mn mx ini) v =
        map_option (\<lambda>(res, p'). (res, ShardedPostings p' mn mx ini)) (Seek P p (max v mn))"
    by (auto simp: max_def split: option.splits)
  have b: "sorted_wrt (<) [5, 25 :: nat] \<and> (12 :: nat) < 20
        \<and> Seek (ShardedPostings_Postings ListPostings_Postings)
             (NewShardedPostings (newListPostings [5, 25]) () (\<lambda>f. (10, 20))) 12
           = Some (True, ShardedPostings (ListPostings [] 25) 10 20 False)
        \<and> At (ShardedPostings_Postings ListPostings_Postings)
             (ShardedPostings (ListPostings [] 25) 10 20 False) \<ge> 20"
    by code_simp
  show ?thesis using a b by blast
qed

theorem ShardedPostings_Seek_unchecked_witness:
  "ShardedPostings_Seek ListPostings_Postings (ShardedPostings (newListPostings [5, 25]) 10 20 False) 12
     = Some (True, ShardedPostings (ListPostings [] 25) 10 20 False)"
proof -
  have e: "Seek ListPostings_Postings (newListPostings [5, 25]) (max 12 10) = Some (True, ListPostings [] 25)"
    by code_simp
  have l: "(12 :: nat) < 20" by simp
  show ?thesis
    using ShardedPostings_Seek_unchecked[THEN conjunct1, rule_format, OF l,
        of ListPostings_Postings "newListPostings [5, 25]" 10 False] e
    by simp
qed

text \<open>
  C2. The first \<open>Next\<close> of a sharded iterator returns what \<open>Seek(0)\<close> returns, and so does
  not compare the value it reaches with \<open>maxOffset\<close>, as every later \<open>Next\<close> does: over the
  inner values 5 and 25 with the bounds [10, 20) the iteration yields 25. Over the inner
  values 5, 9, 10, 15, 19, 20, 25 it yields 10, 15, 19.
\<close>

theorem ShardedPostings_first_Next_beyond_max:
  "ExpandPostings (ShardedPostings_Postings ListPostings_Postings)
     (NewShardedPostings (newListPostings [5, 25]) () (\<lambda>f. (10, 20))) = Some ([25], None)
   \<and> ExpandPostings (ShardedPostings_Postings ListPostings_Postings)
     (NewShardedPostings (newListPostings [5, 9, 10, 15, 19, 20, 25]) () (\<lambda>f. (10, 20)))
       = Some ([10, 15, 19], None)"
  by code_simp

subsection \<open>ExpandPostings over the leaves and the dynamic types\<close>

lemma ExpandPostings_loop_Inr:
  assumes "ExpandPostings_loop B b res = Some y"
  shows "ExpandPostings_loop (dyn_Postings A B) (Inr b) res = Some y"
proof -
  define Q where "Q = (\<lambda>x y. case x of ((P, p), res) \<Rightarrow>
      P = B \<longrightarrow> ExpandPostings_loop (dyn_Postings A B) (Inr p) res = Some y)"
  have step: "Q ((P, p), res) y"
    if IH: "\<And>P p res y. loop P p res = Some y \<Longrightarrow> Q ((P, p), res) y"
    and eq: "(case Next P p of None \<Rightarrow> None
              | Some (ok, p') \<Rightarrow> if ok then loop P p' (res @ [At P p']) else Some (res, Err P p'))
             = Some y"
    for loop P p res y
  proof -
    have "ExpandPostings_loop (dyn_Postings A B) (Inr p) res = Some y" if PB: "P = B"
    proof (cases "Next B p")
      case None
      then show ?thesis using eq PB by simp
    next
      case (Some a)
      obtain ok p' where a: "a = (ok, p')" by (cases a)
      show ?thesis
      proof (cases ok)
        case True
        then have "loop B p' (res @ [At B p']) = Some y"
          using eq PB Some a by simp
        then have "Q ((B, p'), res @ [At B p']) y"
          by (rule IH)
        then have "ExpandPostings_loop (dyn_Postings A B) (Inr p') (res @ [At B p']) = Some y"
          by (simp add: Q_def)
        then show ?thesis
          using Some a True by (subst ExpandPostings_loop.simps) simp
      next
        case False
        then show ?thesis
          using eq PB Some a by (subst ExpandPostings_loop.simps) simp
      qed
    qed
    then show ?thesis by (simp add: Q_def)
  qed
  have "Q ((B, b), res) y"
    by (rule ExpandPostings_loop.raw_induct[of Q, OF step assms])
  then show ?thesis by (simp add: Q_def)
qed

lemma ExpandPostings_Inr:
  "ExpandPostings B b = Some y \<Longrightarrow> ExpandPostings (dyn_Postings A B) (Inr b) = Some y"
  unfolding ExpandPostings_def by (rule ExpandPostings_loop_Inr)

lemma ExpandPostings_loop_Inl:
  assumes "ExpandPostings_loop A b res = Some y"
  shows "ExpandPostings_loop (dyn_Postings A B) (Inl b) res = Some y"
proof -
  define Q where "Q = (\<lambda>x y. case x of ((P, p), res) \<Rightarrow>
      P = A \<longrightarrow> ExpandPostings_loop (dyn_Postings A B) (Inl p) res = Some y)"
  have step: "Q ((P, p), res) y"
    if IH: "\<And>P p res y. loop P p res = Some y \<Longrightarrow> Q ((P, p), res) y"
    and eq: "(case Next P p of None \<Rightarrow> None
              | Some (ok, p') \<Rightarrow> if ok then loop P p' (res @ [At P p']) else Some (res, Err P p'))
             = Some y"
    for loop P p res y
  proof -
    have "ExpandPostings_loop (dyn_Postings A B) (Inl p) res = Some y" if PB: "P = A"
    proof (cases "Next A p")
      case None
      then show ?thesis using eq PB by simp
    next
      case (Some a)
      obtain ok p' where a: "a = (ok, p')" by (cases a)
      show ?thesis
      proof (cases ok)
        case True
        then have "loop A p' (res @ [At A p']) = Some y"
          using eq PB Some a by simp
        then have "Q ((A, p'), res @ [At A p']) y"
          by (rule IH)
        then have "ExpandPostings_loop (dyn_Postings A B) (Inl p') (res @ [At A p']) = Some y"
          by (simp add: Q_def)
        then show ?thesis
          using Some a True by (subst ExpandPostings_loop.simps) simp
      next
        case False
        then show ?thesis
          using eq PB Some a by (subst ExpandPostings_loop.simps) simp
      qed
    qed
    then show ?thesis by (simp add: Q_def)
  qed
  have "Q ((A, b), res) y"
    by (rule ExpandPostings_loop.raw_induct[of Q, OF step assms])
  then show ?thesis by (simp add: Q_def)
qed

lemma ExpandPostings_Inl:
  "ExpandPostings A a = Some y \<Longrightarrow> ExpandPostings (dyn_Postings A B) (Inl a) = Some y"
  unfolding ExpandPostings_def by (rule ExpandPostings_loop_Inl)

lemma ExpandPostings_errPostings:
  "ExpandPostings errPostings_Postings e = Some ([], errPostings_Err e)"
  unfolding ExpandPostings_def by (subst ExpandPostings_loop.simps) simp

lemma ExpandPostings_loop_ListPostings:
  "ExpandPostings_loop ListPostings_Postings (ListPostings xs c) res = Some (res @ xs, None)"
proof (induction xs arbitrary: c res)
  case Nil
  show ?case by (subst ExpandPostings_loop.simps) simp
next
  case (Cons x xs)
  show ?case by (subst ExpandPostings_loop.simps) (simp add: Cons.IH)
qed

lemma ExpandPostings_ListPostings:
  "ExpandPostings ListPostings_Postings (newListPostings xs) = Some (xs, None)"
  by (simp add: ExpandPostings_def newListPostings_def ExpandPostings_loop_ListPostings)

lemma ExpandPostings_Get:
  "ExpandPostings (dyn_Postings errPostings_Postings ListPostings_Postings) (Get p n v)
     = Some (postings_list p n v, None)"
proof (cases "postings_list p n v = []")
  case True
  then show ?thesis
    by (simp add: Get_def ExpandPostings_Inl ExpandPostings_errPostings EmptyPostings_def emptyPostings_def)
next
  case False
  then show ?thesis
    by (simp add: Get_def ExpandPostings_Inr ExpandPostings_ListPostings)
qed

subsection \<open>Filling an unordered store, then ordering it\<close>

lemma addFor_unordered:
  assumes "\<not> is_ordered p"
  shows "postings_list (addFor r l p) n v = postings_list p n v @ (if l = (n, v) then [r] else [])"
  using assms by (cases l) (auto simp: postings_list_addFor)

lemma foldl_addFor_unordered:
  assumes "\<not> is_ordered p"
  shows "\<not> is_ordered (foldl (\<lambda>p l. addFor r l p) p ls) \<and>
         postings_list (foldl (\<lambda>p l. addFor r l p) p ls) n v =
           postings_list p n v @ replicate (count_list ls (n, v)) r"
  using assms
proof (induction ls arbitrary: p)
  case Nil
  then show ?case by simp
next
  case (Cons l ls)
  have q: "\<not> is_ordered (addFor r l p)" using Cons.prems by simp
  show ?case
    using Cons.IH[OF q] Cons.prems
    by (auto simp: addFor_unordered replicate_append_same)
qed

lemma Add_unordered:
  assumes "\<not> is_ordered p"
  shows "\<not> is_ordered (Add r ls p) \<and>
         postings_list (Add r ls p) n v =
           postings_list p n v @ replicate (count_list (ls @ [allPostingsKey]) (n, v)) r"
  using foldl_addFor_unordered[OF assms, of r ls n v]
  by (auto simp: Add_def addFor_unordered replicate_append_same)

lemma Adds_unordered:
  assumes "\<not> is_ordered p"
  shows "\<not> is_ordered (foldl (\<lambda>p (r, ls). Add r ls p) p adds) \<and>
         postings_list (foldl (\<lambda>p (r, ls). Add r ls p) p adds) n v =
           postings_list p n v
           @ concat (map (\<lambda>(r, ls). replicate (count_list (ls @ [allPostingsKey]) (n, v)) r) adds)"
  using assms
proof (induction adds arbitrary: p)
  case Nil
  then show ?case by simp
next
  case (Cons a adds)
  obtain r ls where a: "a = (r, ls)" by (cases a)
  have q: "\<not> is_ordered (Add r ls p)" using Add_unordered[OF Cons.prems] by simp
  show ?case
    using Cons.IH[OF q] Add_unordered[OF Cons.prems, of r ls n v]
    by (simp add: a)
qed

lemma postings_list_EnsureOrder:
  "postings_list (EnsureOrder p) n v =
     (if is_ordered p then postings_list p n v else sort (postings_list p n v))"
proof (cases p)
  case (MemPostings m b)
  have i: "map_of (map (\<lambda>(n, e). (n, map (\<lambda>(v, l). (v, sort l)) e)) m) n =
             map_option (map (\<lambda>(v, l). (v, sort l))) (map_of m n)"
    by (simp add: map_of_map)
  have j: "\<And>e. map_of (map (\<lambda>(v, l). (v, sort l)) e) v = map_option sort (map_of e v)"
    by (simp add: map_of_map)
  show ?thesis
    unfolding MemPostings
    by (auto simp: postings_list_def i j split: option.splits)
qed

lemma concat_replicate_filter:
  assumes "\<forall>(r, ls) \<in> set adds. distinct ls \<and> allPostingsKey \<notin> set ls"
  shows "concat (map (\<lambda>(r, ls). replicate (count_list (ls @ [allPostingsKey]) l) r) adds) =
           map fst (filter (\<lambda>(r, ls). l \<in> set ls \<or> l = allPostingsKey) adds)"
  using assms
proof (induction adds)
  case Nil
  then show ?case by simp
next
  case (Cons a adds)
  obtain r ls where a: "a = (r, ls)" by (cases a)
  have d: "distinct ls" and k: "allPostingsKey \<notin> set ls" using Cons.prems a by auto
  have c: "count_list ls l = (if l \<in> set ls then 1 else 0)"
    using d by (induction ls) auto
  have "count_list (ls @ [allPostingsKey]) l = (if l \<in> set ls \<or> l = allPostingsKey then 1 else 0)"
    using c k by auto
  then show ?case using Cons a by simp
qed


text \<open>
  C1. Start from the unordered constructor, run any sequence of \<open>Add\<close> calls with pairwise
  distinct references (each label set lists a label once and does not hold the reserved
  all-postings key), then \<open>EnsureOrder\<close>. For every label, expanding \<open>Get\<close> gives a
  strictly increasing list whose elements are exactly the references added with that label;
  expanding \<open>All\<close> gives every added reference once, strictly increasing. Both depend on
  the set of calls only, not on their order.
\<close>

theorem EnsureOrder_Get_All:
  assumes "distinct (map fst adds)"
    and "\<forall>(r, ls) \<in> set adds. distinct ls \<and> allPostingsKey \<notin> set ls"
  shows "(\<forall>n v. (n, v) \<noteq> allPostingsKey \<longrightarrow>
            (\<exists>xs. ExpandPostings (dyn_Postings errPostings_Postings ListPostings_Postings)
                    (Get (EnsureOrder (foldl (\<lambda>p (r, ls). Add r ls p) NewUnorderedMemPostings adds)) n v)
                   = Some (xs, None)
                 \<and> sorted_wrt (<) xs
                 \<and> set xs = {r. \<exists>ls. (r, ls) \<in> set adds \<and> (n, v) \<in> set ls}))
       \<and> (\<exists>xs. ExpandPostings (dyn_Postings errPostings_Postings ListPostings_Postings)
                    (All (EnsureOrder (foldl (\<lambda>p (r, ls). Add r ls p) NewUnorderedMemPostings adds)))
                   = Some (xs, None)
                 \<and> sorted_wrt (<) xs
                 \<and> set xs = fst ` set adds)"
proof -
  let ?q = "foldl (\<lambda>p (r, ls). Add r ls p) NewUnorderedMemPostings adds"
  let ?sel = "\<lambda>l. map fst (filter (\<lambda>(r, ls). l \<in> set ls \<or> l = allPostingsKey) adds)"
  have u: "\<not> is_ordered NewUnorderedMemPostings" by (simp add: NewUnorderedMemPostings_def)
  have e: "\<And>n v. postings_list NewUnorderedMemPostings n v = []"
    by (simp add: NewUnorderedMemPostings_def postings_list_def)
  have q: "\<not> is_ordered ?q" "\<And>n v. postings_list ?q n v = ?sel (n, v)"
    using Adds_unordered[OF u, of adds] concat_replicate_filter[OF assms(2)]
    by (simp_all add: e)
  have l: "\<And>n v. postings_list (EnsureOrder ?q) n v = sort (?sel (n, v))"
    using q by (simp add: postings_list_EnsureOrder)
  have d: "\<And>l. distinct (?sel l)"
    using assms(1) by (rule distinct_map_filter)
  have s: "\<And>l. sorted_wrt (<) (sort (?sel l))"
    using d by (simp add: strict_sorted_iff)
  have x: "\<And>n v. ExpandPostings (dyn_Postings errPostings_Postings ListPostings_Postings)
                    (Get (EnsureOrder ?q) n v) = Some (sort (?sel (n, v)), None)"
    by (simp add: ExpandPostings_Get l)
  have g: "\<And>n v. (n, v) \<noteq> allPostingsKey \<Longrightarrow>
             set (sort (?sel (n, v))) = {r. \<exists>ls. (r, ls) \<in> set adds \<and> (n, v) \<in> set ls}"
    by force
  have a: "set (sort (?sel allPostingsKey)) = fst ` set adds"
    by force
  have al: "All (EnsureOrder ?q) = Get (EnsureOrder ?q) (fst allPostingsKey) (snd allPostingsKey)"
    by (simp add: All_def)
  have c1: "\<exists>xs. ExpandPostings (dyn_Postings errPostings_Postings ListPostings_Postings)
                    (Get (EnsureOrder ?q) n v) = Some (xs, None)
                 \<and> sorted_wrt (<) xs
                 \<and> set xs = {r. \<exists>ls. (r, ls) \<in> set adds \<and> (n, v) \<in> set ls}"
    if "(n, v) \<noteq> allPostingsKey" for n v
    using x[of n v] s[of "(n, v)"] g[OF that] by blast
  have c2: "\<exists>xs. ExpandPostings (dyn_Postings errPostings_Postings ListPostings_Postings)
                    (All (EnsureOrder ?q)) = Some (xs, None)
                 \<and> sorted_wrt (<) xs
                 \<and> set xs = fst ` set adds"
    unfolding al
    using x[of "fst allPostingsKey" "snd allPostingsKey"] s[of allPostingsKey] a by auto
  show ?thesis
    using c1 c2 by blast
qed

theorem EnsureOrder_Get_All_witness:
  "ExpandPostings (dyn_Postings errPostings_Postings ListPostings_Postings)
     (Get (EnsureOrder (foldl (\<lambda>p (r, ls). Add r ls p) NewUnorderedMemPostings
        [(5, [(''a'', ''b''), (''c'', ''d'')]), (2, [(''a'', ''b'')]), (3, [(''c'', ''d'')])])) ''a'' ''b'')
     = Some ([2, 5], None)
   \<and> ExpandPostings (dyn_Postings errPostings_Postings ListPostings_Postings)
     (All (EnsureOrder (foldl (\<lambda>p (r, ls). Add r ls p) NewUnorderedMemPostings
        [(5, [(''a'', ''b''), (''c'', ''d'')]), (2, [(''a'', ''b'')]), (3, [(''c'', ''d'')])])))
     = Some ([2, 3, 5], None)"
proof -
  let ?adds = "[(5 :: nat, [(''a'', ''b''), (''c'', ''d'')]), (2, [(''a'', ''b'')]), (3, [(''c'', ''d'')])]"
  have h1: "distinct (map fst ?adds)" by simp
  have h2: "\<forall>(r, ls) \<in> set ?adds. distinct ls \<and> allPostingsKey \<notin> set ls"
    by (simp add: allPostingsKey_def)
  have v: "ExpandPostings (dyn_Postings errPostings_Postings ListPostings_Postings)
     (Get (EnsureOrder (foldl (\<lambda>p (r, ls). Add r ls p) NewUnorderedMemPostings ?adds)) ''a'' ''b'')
     = Some ([2, 5], None)
   \<and> ExpandPostings (dyn_Postings errPostings_Postings ListPostings_Postings)
     (All (EnsureOrder (foldl (\<lambda>p (r, ls). Add r ls p) NewUnorderedMemPostings ?adds)))
     = Some ([2, 3, 5], None)"
    by code_simp
  show ?thesis
    using EnsureOrder_Get_All[OF h1 h2] v by simp
qed

subsection \<open>The list-backed iterator conforms\<close>

lemma Search_loop_spec:
  assumes "\<forall>a b. a \<le> b \<and> b < n \<and> f a \<longrightarrow> f b"
    and "i \<le> j" "j \<le> n"
    and "\<forall>k < i. \<not> f k" "\<forall>k. j \<le> k \<and> k < n \<longrightarrow> f k"
  shows "(\<forall>k < Search_loop f i j. \<not> f k) \<and> (\<forall>k. Search_loop f i j \<le> k \<and> k < n \<longrightarrow> f k)
         \<and> Search_loop f i j \<le> n"
  using assms
proof (induction f i j rule: Search_loop.induct)
  case (1 f i j)
  note mono = 1(3)
  show ?case
  proof (cases "i < j")
    case False
    then have "Search_loop f i j = i" by (subst Search_loop.simps) simp
    moreover have "i = j" using False 1(4) by simp
    ultimately show ?thesis using 1(5-7) by auto
  next
    case True
    let ?h = "(i + j) div 2"
    have hb: "i \<le> ?h" "?h < j" using True by auto
    show ?thesis
    proof (cases "f ?h")
      case False
      have e: "Search_loop f i j = Search_loop f (?h + 1) j"
        using True False by (subst Search_loop.simps) (simp add: Let_def)
      have "\<forall>k < ?h + 1. \<not> f k"
      proof (intro allI impI)
        fix k assume "k < ?h + 1"
        then have "k \<le> ?h" by simp
        moreover have "?h < n" using hb 1(5) by simp
        ultimately show "\<not> f k" using mono False by blast
      qed
      moreover have "?h + 1 \<le> j" using hb by simp
      ultimately show ?thesis
        unfolding e using 1(1)[OF True refl False mono] 1(5) 1(7) by blast
    next
      case fh: True
      have e: "Search_loop f i j = Search_loop f i ?h"
        using True fh by (subst Search_loop.simps) (simp add: Let_def)
      have "\<forall>k. ?h \<le> k \<and> k < n \<longrightarrow> f k"
        using mono fh by blast
      moreover have "?h \<le> n" using hb 1(5) by simp
      ultimately show ?thesis
        unfolding e using 1(2)[OF True refl _ mono] fh hb(1) 1(6) by blast
    qed
  qed
qed

lemma Search_sorted:
  assumes "sorted_wrt (<) (list :: nat list)"
  shows "Search (length list) (\<lambda>i. list ! i \<ge> x) = length (takeWhile (\<lambda>y. y < x) list)"
proof -
  let ?f = "\<lambda>i. list ! i \<ge> x" and ?n = "length list"
  let ?r = "Search ?n ?f" and ?t = "length (takeWhile (\<lambda>y. y < x) list)"
  have s: "sorted list" using assms by (simp add: strict_sorted_iff)
  have mono: "\<forall>a b. a \<le> b \<and> b < ?n \<and> ?f a \<longrightarrow> ?f b"
  proof (intro allI impI)
    fix a b assume h: "a \<le> b \<and> b < ?n \<and> ?f a"
    then have "list ! a \<le> list ! b" using s sorted_nth_mono by blast
    then show "?f b" using h by simp
  qed
  have r: "(\<forall>k < ?r. \<not> ?f k) \<and> (\<forall>k. ?r \<le> k \<and> k < ?n \<longrightarrow> ?f k) \<and> ?r \<le> ?n"
    unfolding Search_def
    by (rule Search_loop_spec[where n = ?n, OF mono]) auto
  have t1: "\<forall>k < ?t. list ! k < x"
  proof (intro allI impI)
    fix k assume k: "k < ?t"
    then have "takeWhile (\<lambda>y. y < x) list ! k \<in> set (takeWhile (\<lambda>y. y < x) list)" by simp
    then have "takeWhile (\<lambda>y. y < x) list ! k < x" by (rule set_takeWhileD[THEN conjunct2])
    then show "list ! k < x" using k by (simp add: takeWhile_nth)
  qed
  have t2: "?t < ?n \<longrightarrow> \<not> list ! ?t < x"
    using nth_length_takeWhile by blast
  have t3: "?t \<le> ?n" by (rule length_takeWhile_le)
  show ?thesis
  proof (rule ccontr)
    assume ne: "?r \<noteq> ?t"
    show False
    proof (cases "?r < ?t")
      case True
      then have "list ! ?r < x" using t1 by blast
      moreover have "?r < ?n" using True t3 by (rule less_le_trans)
      moreover have "?r \<le> ?r" by simp
      ultimately show False using r by (meson leD)
    next
      case False
      then have lt: "?t < ?r" using ne by simp
      then have "\<not> ?f ?t" using r by blast
      moreover have "?r \<le> ?n" using r by blast
      then have "?t < ?n" using lt by (rule less_le_trans[rotated])
      ultimately show False using t2 by (auto simp: not_le)
    qed
  qed
qed

lemma dropWhile_as_drop:
  "dropWhile P xs = drop (length (takeWhile P xs)) xs"
  by (metis append_eq_conv_conj takeWhile_dropWhile_id)

lemma ListPostings_Seek_sorted:
  assumes "sorted_wrt (<) list" "cur < x"
  shows "ListPostings_Seek (ListPostings list cur) x =
           (case dropWhile (\<lambda>y. y < x) list of
              [] \<Rightarrow> (False, ListPostings [] cur)
            | y # ys \<Rightarrow> (True, ListPostings ys y))"
proof (cases "dropWhile (\<lambda>y. y < x) list")
  case Nil
  then have "length (takeWhile (\<lambda>y. y < x) list) = length list"
    by (metis append_Nil2 takeWhile_dropWhile_id)
  then show ?thesis
    using assms Nil by (auto simp: Search_sorted Let_def simp del: dropWhile_eq_Nil_conv)
next
  case (Cons y ys)
  let ?t = "length (takeWhile (\<lambda>y. y < x) list)"
  have d: "drop ?t list = y # ys" using Cons by (simp add: dropWhile_as_drop)
  then have lt: "?t < length list" by (metis drop_all list.distinct(1) not_le)
  have y: "list ! ?t = y" using d lt by (metis Cons_nth_drop_Suc list.inject)
  have ys: "drop (?t + 1) list = ys" using d lt by (metis Cons_nth_drop_Suc Suc_eq_plus1 list.inject)
  have "list \<noteq> []" using lt by auto
  then show ?thesis
    using assms Cons lt y ys by (simp add: Search_sorted Let_def)
qed

lemma sorted_wrt_dropWhile_tail:
  assumes "sorted_wrt (<) (xs :: nat list)" "dropWhile P xs = y # ys"
  shows "sorted_wrt (<) ys \<and> (\<forall>z \<in> set ys. y < z)"
proof -
  have "sorted_wrt (<) (dropWhile P xs)"
    using assms(1) by (metis sorted_wrt_append takeWhile_dropWhile_id)
  then show ?thesis using assms(2) by simp
qed

lemma conforming_ListPostings: "conforming ListPostings_Postings ListPostings_iter"
  unfolding conforming_def
proof (intro allI impI)
  fix s pos xs
  assume it: "ListPostings_iter s pos xs"
  obtain list cur where s: "s = ListPostings list cur" by (cases s)
  have xs: "xs = list" and so: "sorted_wrt (<) list" using it s by auto
  have c1: "sorted_wrt (<) xs" using xs so by simp
  have c2: "\<forall>c. pos = Some c \<longrightarrow> At ListPostings_Postings s = c \<and> (\<forall>x \<in> set xs. c < x)"
    using it s by auto
  have c3: "Err ListPostings_Postings s = None" by simp
  have c4: "IsEmptyPostingsType ListPostings_Postings s \<longrightarrow> xs = []" by simp
  have c5: "case xs of
            [] \<Rightarrow> (\<exists>s'. Next ListPostings_Postings s = Some (False, s') \<and> Err ListPostings_Postings s' = None)
          | x # r \<Rightarrow> (\<exists>s'. Next ListPostings_Postings s = Some (True, s') \<and> ListPostings_iter s' (Some x) r)"
    using xs so s by (cases list) auto
  have c6: "\<forall>v c. pos = Some c \<and> v \<le> c \<longrightarrow> Seek ListPostings_Postings s v = Some (True, s)"
    using it s by auto
  have c7: "\<forall>v. (case pos of None \<Rightarrow> 0 < v | Some c \<Rightarrow> c < v) \<longrightarrow>
            (case dropWhile (\<lambda>x. x < v) xs of
               [] \<Rightarrow> (\<exists>s'. Seek ListPostings_Postings s v = Some (False, s') \<and> Err ListPostings_Postings s' = None)
             | y # ys \<Rightarrow> (\<exists>s'. Seek ListPostings_Postings s v = Some (True, s') \<and> ListPostings_iter s' (Some y) ys))"
  proof (intro allI impI)
    fix v
    assume "case pos of None \<Rightarrow> 0 < v | Some c \<Rightarrow> c < v"
    then have lt: "cur < v" using it s by (cases pos) auto
    show "case dropWhile (\<lambda>x. x < v) xs of
               [] \<Rightarrow> (\<exists>s'. Seek ListPostings_Postings s v = Some (False, s') \<and> Err ListPostings_Postings s' = None)
             | y # ys \<Rightarrow> (\<exists>s'. Seek ListPostings_Postings s v = Some (True, s') \<and> ListPostings_iter s' (Some y) ys)"
    proof (cases "dropWhile (\<lambda>x. x < v) list")
      case Nil
      then show ?thesis
        using ListPostings_Seek_sorted[OF so lt]
        by (simp add: xs s del: dropWhile_eq_Nil_conv ListPostings_Seek.simps)
    next
      case (Cons y ys)
      then show ?thesis
        using ListPostings_Seek_sorted[OF so lt] sorted_wrt_dropWhile_tail[OF so Cons]
        by (simp add: xs s del: ListPostings_Seek.simps)
    qed
  qed
  show "sorted_wrt (<) xs
      \<and> (\<forall>c. pos = Some c \<longrightarrow> At ListPostings_Postings s = c \<and> (\<forall>x \<in> set xs. c < x))
      \<and> Err ListPostings_Postings s = None
      \<and> (IsEmptyPostingsType ListPostings_Postings s \<longrightarrow> xs = [])
      \<and> (case xs of
            [] \<Rightarrow> (\<exists>s'. Next ListPostings_Postings s = Some (False, s') \<and> Err ListPostings_Postings s' = None)
          | x # r \<Rightarrow> (\<exists>s'. Next ListPostings_Postings s = Some (True, s') \<and> ListPostings_iter s' (Some x) r))
      \<and> (\<forall>v c. pos = Some c \<and> v \<le> c \<longrightarrow> Seek ListPostings_Postings s v = Some (True, s))
      \<and> (\<forall>v. (case pos of None \<Rightarrow> 0 < v | Some c \<Rightarrow> c < v) \<longrightarrow>
            (case dropWhile (\<lambda>x. x < v) xs of
               [] \<Rightarrow> (\<exists>s'. Seek ListPostings_Postings s v = Some (False, s') \<and> Err ListPostings_Postings s' = None)
             | y # ys \<Rightarrow> (\<exists>s'. Seek ListPostings_Postings s v = Some (True, s') \<and> ListPostings_iter s' (Some y) ys)))"
    using c1 c2 c3 c4 c5 c6 c7 by blast
qed

subsection \<open>What a conforming iterator gives\<close>

lemma conformingD:
  assumes "conforming P iter" "iter s pos xs"
  shows "sorted_wrt (<) xs" and "Err P s = None"
    and "IsEmptyPostingsType P s \<Longrightarrow> xs = []"
    and "pos = Some c \<Longrightarrow> At P s = c"
    and "pos = Some c \<Longrightarrow> x \<in> set xs \<Longrightarrow> c < x"
  using assms unfolding conforming_def by blast+

lemma conforming_Next_Nil:
  assumes "conforming P iter" "iter s pos []"
  obtains s' where "Next P s = Some (False, s')" "Err P s' = None"
proof -
  have "case [] :: nat list of
            [] \<Rightarrow> (\<exists>s'. Next P s = Some (False, s') \<and> Err P s' = None)
          | x # r \<Rightarrow> (\<exists>s'. Next P s = Some (True, s') \<and> iter s' (Some x) r)"
    using assms unfolding conforming_def by blast
  then show ?thesis using that by auto
qed

lemma conforming_Next_Cons:
  assumes "conforming P iter" "iter s pos (x # r)"
  obtains s' where "Next P s = Some (True, s')" "iter s' (Some x) r"
proof -
  have "case x # r of
            [] \<Rightarrow> (\<exists>s'. Next P s = Some (False, s') \<and> Err P s' = None)
          | x # r \<Rightarrow> (\<exists>s'. Next P s = Some (True, s') \<and> iter s' (Some x) r)"
    using assms unfolding conforming_def by blast
  then show ?thesis using that by auto
qed

lemma conforming_Seek_noop:
  assumes "conforming P iter" "iter s (Some c) xs" "v \<le> c"
  shows "Seek P s v = Some (True, s)"
  using assms unfolding conforming_def by blast

lemma conforming_Seek_move:
  assumes "conforming P iter" "iter s pos xs" "case pos of None \<Rightarrow> 0 < v | Some c \<Rightarrow> c < v"
  shows "case dropWhile (\<lambda>x. x < v) xs of
               [] \<Rightarrow> (\<exists>s'. Seek P s v = Some (False, s') \<and> Err P s' = None)
             | y # ys \<Rightarrow> (\<exists>s'. Seek P s v = Some (True, s') \<and> iter s' (Some y) ys)"
  using assms unfolding conforming_def by blast

lemma conforming_Seek_Nil:
  assumes "conforming P iter" "iter s pos xs" "case pos of None \<Rightarrow> 0 < v | Some c \<Rightarrow> c < v"
    and "dropWhile (\<lambda>x. x < v) xs = []"
  obtains s' where "Seek P s v = Some (False, s')" "Err P s' = None"
  using conforming_Seek_move[OF assms(1-3)] assms(4) that
  by (auto simp del: dropWhile_eq_Nil_conv)

lemma conforming_Seek_Cons:
  assumes "conforming P iter" "iter s pos xs" "case pos of None \<Rightarrow> 0 < v | Some c \<Rightarrow> c < v"
    and "dropWhile (\<lambda>x. x < v) xs = y # ys"
  obtains s' where "Seek P s v = Some (True, s')" "iter s' (Some y) ys"
  using conforming_Seek_move[OF assms(1-3)] assms(4) that
  by auto

lemma ExpandPostings_loop_conforming:
  assumes "conforming P iter" "iter s pos xs"
  shows "ExpandPostings_loop P s res = Some (res @ xs, None)"
  using assms(2)
proof (induction xs arbitrary: s pos res)
  case Nil
  obtain s' where "Next P s = Some (False, s')" "Err P s' = None"
    using conforming_Next_Nil[OF assms(1) Nil] by blast
  then show ?case by (subst ExpandPostings_loop.simps) simp
next
  case (Cons x r)
  obtain s' where n: "Next P s = Some (True, s')" and i: "iter s' (Some x) r"
    using conforming_Next_Cons[OF assms(1) Cons.prems] by blast
  have "At P s' = x" using conformingD(4)[OF assms(1) i] by simp
  then show ?case
    using n Cons.IH[OF i] by (subst ExpandPostings_loop.simps) simp
qed

lemma ExpandPostings_conforming:
  assumes "conforming P iter" "iter s pos xs"
  shows "ExpandPostings P s = Some (xs, None)"
  using ExpandPostings_loop_conforming[OF assms, of "[]"] by (simp add: ExpandPostings_def)

subsection \<open>Iterating with Next\<close>

lemma ExpandPostings_loop_steps:
  assumes "steps P rel" "rel s xs"
  shows "ExpandPostings_loop P s res = Some (res @ xs, None)"
  using assms(2)
proof (induction xs arbitrary: s res)
  case Nil
  have "\<exists>s'. Next P s = Some (False, s') \<and> Err P s' = None"
    using assms(1) Nil unfolding steps_def by force
  then show ?case by (subst ExpandPostings_loop.simps) auto
next
  case (Cons x r)
  have "\<exists>s'. Next P s = Some (True, s') \<and> At P s' = x \<and> rel s' r"
    using assms(1) Cons.prems unfolding steps_def by force
  then obtain s' where n: "Next P s = Some (True, s')" "At P s' = x" "rel s' r" by blast
  show ?case
    using n(1,2) Cons.IH[OF n(3)] by (subst ExpandPostings_loop.simps) simp
qed

lemma ExpandPostings_steps:
  assumes "steps P rel" "rel s xs"
  shows "ExpandPostings P s = Some (xs, None)"
  using ExpandPostings_loop_steps[OF assms, of "[]"] by (simp add: ExpandPostings_def)

lemma positioned_after_Next:
  assumes "conforming P iter" "iter s pos xs"
  shows "\<exists>ok s'. Next P s = Some (ok, s') \<and> positioned P iter s' ok xs"
proof (cases xs)
  case Nil
  then obtain s' where "Next P s = Some (False, s')" "Err P s' = None"
    using conforming_Next_Nil[OF assms(1)] assms(2) by blast
  then have "Next P s = Some (False, s') \<and> positioned P iter s' False xs"
    using Nil by (simp add: positioned_def)
  then show ?thesis by blast
next
  case (Cons x r)
  then obtain s' where "Next P s = Some (True, s')" "iter s' (Some x) r"
    using conforming_Next_Cons[OF assms(1)] assms(2) by blast
  then have "Next P s = Some (True, s') \<and> positioned P iter s' True xs"
    using Cons by (simp add: positioned_def)
  then show ?thesis by blast
qed

lemma positioned_Err:
  assumes "conforming P iter" "positioned P iter s ok avail"
  shows "Err P s = None"
  using assms conformingD(2) by (fastforce simp: positioned_def split: if_splits)

lemma positioned_True:
  assumes "conforming P iter" "positioned P iter s True avail"
  obtains xs where "avail = At P s # xs" "iter s (Some (At P s)) xs"
    "sorted_wrt (<) xs" "\<forall>x \<in> set xs. At P s < x"
proof -
  obtain c xs where a: "avail = c # xs" "iter s (Some c) xs"
    using assms(2) by (auto simp: positioned_def)
  have "At P s = c" using conformingD(4)[OF assms(1) a(2)] by simp
  moreover have "sorted_wrt (<) xs" using conformingD(1)[OF assms(1) a(2)] .
  moreover have "\<forall>x \<in> set xs. c < x" using conformingD(5)[OF assms(1) a(2)] by blast
  ultimately show ?thesis using that a by blast
qed

lemma positioned_False [simp]: "positioned P iter s False avail = (avail = [] \<and> Err P s = None)"
  by (simp add: positioned_def)

subsection \<open>Without\<close>

lemma without_simps [simp]:
  "without [] ra = []"
  "without fa [] = fa"
  "without (fc # fxs) ra = (if fc \<in> set ra then without fxs ra else fc # without fxs ra)"
  by (simp_all add: without_def)

lemma without_skip:
  assumes "\<forall>x \<in> set fa. fc \<le> x" "set ra' \<subseteq> set ra" "\<forall>x \<in> set ra - set ra'. x < fc"
  shows "without fa ra = without fa ra'"
  unfolding without_def
proof (rule filter_cong[OF refl])
  fix x assume "x \<in> set fa"
  then have "fc \<le> x" using assms(1) by blast
  then have "x \<in> set ra \<Longrightarrow> x \<in> set ra'" using assms(3) by (meson DiffI not_le)
  then show "(x \<notin> set ra) = (x \<notin> set ra')" using assms(2) by blast
qed

lemma dropWhile_less_split:
  "set (dropWhile (\<lambda>x. x < (v::nat)) xs) \<subseteq> set xs"
  "\<forall>x \<in> set xs - set (dropWhile (\<lambda>x. x < v) xs). x < v"
proof -
  show "set (dropWhile (\<lambda>x. x < v) xs) \<subseteq> set xs" by (rule set_dropWhileD[THEN subsetI]) 
  have "set xs = set (takeWhile (\<lambda>x. x < v) xs) \<union> set (dropWhile (\<lambda>x. x < v) xs)"
    by (metis set_append takeWhile_dropWhile_id)
  then show "\<forall>x \<in> set xs - set (dropWhile (\<lambda>x. x < v) xs). x < v"
    using set_takeWhileD by fastforce
qed

lemma removed_rel_initialized:
  assumes "positioned F iF full fok fa" "positioned R iR remove rok ra"
  shows "removed_rel F R iF iR (removedPostings full remove cur True fok rok) (without fa ra)"
  using assms by (auto simp: removed_rel_def)

lemma removedPostings_Next_loop_spec:
  assumes cF: "conforming F iF" and cR: "conforming R iR"
    and "positioned F iF full fok fa" "positioned R iR remove rok ra"
  shows "case without fa ra of
           [] \<Rightarrow> (\<exists>st'. removedPostings_Next_loop F R (removedPostings full remove cur True fok rok)
                          = Some (False, st') \<and> removedPostings_Err F R st' = None)
         | y # ys \<Rightarrow> (\<exists>st'. removedPostings_Next_loop F R (removedPostings full remove cur True fok rok)
                          = Some (True, st') \<and> removedPostings_At st' = y
                        \<and> removed_rel F R iF iR st' ys)"
  using assms(3,4)
proof (induction "length fa + length ra" arbitrary: full remove fok rok fa ra cur rule: less_induct)
  case less
  note pf = less.prems(1) and pr = less.prems(2)
  have eR: "Err R remove = None" using positioned_Err[OF cR pr] .
  have eF: "Err F full = None" using positioned_Err[OF cF pf] .
  let ?st = "removedPostings full remove cur True fok rok"
  show ?case
  proof (cases fok)
    case False
    then have fa: "fa = []" using pf by simp
    have "removedPostings_Next_loop F R ?st = Some (False, ?st)"
      using False by (subst removedPostings_Next_loop.simps) simp
    then show ?thesis using fa eF eR by simp
  next
    case fok: True
    have pfT: "positioned F iF full True fa" using pf fok by simp
    obtain fxs where fa: "fa = At F full # fxs" and itf: "iF full (Some (At F full)) fxs"
      and fgt: "\<forall>x \<in> set fxs. At F full < x"
      using positioned_True[OF cF pfT] by blast
    let ?fc = "At F full"
    obtain fok' full' where nf: "Next F full = Some (fok', full')"
      and pf': "positioned F iF full' fok' fxs"
      using positioned_after_Next[OF cF itf] by blast
    show ?thesis
    proof (cases rok)
      case False
      then have ra: "ra = []" using pr by simp
      have l: "removedPostings_Next_loop F R ?st
                 = Some (True, removedPostings full' remove ?fc True fok' rok)"
        using fok False nf by (subst removedPostings_Next_loop.simps) simp
      have "removed_rel F R iF iR (removedPostings full' remove ?fc True fok' rok) (without fxs ra)"
        using removed_rel_initialized[OF pf' pr] .
      then show ?thesis using l fa ra by simp
    next
      case rok: True
      have prT: "positioned R iR remove True ra" using pr rok by simp
      obtain rxs where ra: "ra = At R remove # rxs" and itr: "iR remove (Some (At R remove)) rxs"
        and rgt: "\<forall>x \<in> set rxs. At R remove < x"
        using positioned_True[OF cR prT] by blast
      let ?rc = "At R remove"
      consider (lt) "?fc < ?rc" | (gt) "?rc < ?fc" | (eq) "?fc = ?rc" by linarith
      then show ?thesis
      proof cases
        case lt
        have notin: "?fc \<notin> set ra" using lt rgt ra by auto
        have l: "removedPostings_Next_loop F R ?st
                   = Some (True, removedPostings full' remove ?fc True fok' rok)"
          using fok rok nf lt by (subst removedPostings_Next_loop.simps) (simp add: Let_def)
        have "removed_rel F R iF iR (removedPostings full' remove ?fc True fok' rok) (without fxs ra)"
          using removed_rel_initialized[OF pf' pr] .
        then have "removed_rel F R iF iR (removedPostings full' remove ?fc True fok' rok)
                     (without fxs ra) \<and> without fa ra = ?fc # without fxs ra"
          using notin by (subst fa) simp
        then show ?thesis using l by simp
      next
        case eq
        have isin: "?fc \<in> set ra" using eq ra by simp
        have l: "removedPostings_Next_loop F R ?st
                   = removedPostings_Next_loop F R (removedPostings full' remove cur True fok' rok)"
          using fok rok nf eq by (subst removedPostings_Next_loop.simps) (simp add: Let_def)
        have m: "length fxs + length ra < length fa + length ra" using fa by simp
        have w: "without fa ra = without fxs ra" using isin by (subst fa) simp
        from less.hyps[OF m pf' pr, of cur] show ?thesis
          unfolding l w .
      next
        case gt
        have pos: "case Some ?rc of None \<Rightarrow> 0 < ?fc | Some c \<Rightarrow> c < ?fc" using gt by simp
        let ?ra' = "dropWhile (\<lambda>x. x < ?fc) rxs"
        have "\<exists>rok' remove'. Seek R remove ?fc = Some (rok', remove')
                \<and> positioned R iR remove' rok' ?ra'"
        proof (cases ?ra')
          case Nil
          then obtain s' where "Seek R remove ?fc = Some (False, s')" "Err R s' = None"
            using conforming_Seek_Nil[OF cR itr pos] by blast
          then have "Seek R remove ?fc = Some (False, s') \<and> positioned R iR s' False ?ra'"
            using Nil by (simp del: dropWhile_eq_Nil_conv)
          then show ?thesis by blast
        next
          case (Cons y ys)
          then obtain s' where "Seek R remove ?fc = Some (True, s')" "iR s' (Some y) ys"
            using conforming_Seek_Cons[OF cR itr pos] by blast
          then have "Seek R remove ?fc = Some (True, s') \<and> positioned R iR s' True ?ra'"
            using Cons by (simp add: positioned_def)
          then show ?thesis by blast
        qed
        then obtain rok' remove' where sr: "Seek R remove ?fc = Some (rok', remove')"
          and pr': "positioned R iR remove' rok' ?ra'" by blast
        have l: "removedPostings_Next_loop F R ?st
                   = removedPostings_Next_loop F R (removedPostings full remove' cur True fok rok')"
          using fok rok sr gt by (subst removedPostings_Next_loop.simps) (simp add: Let_def)
        have "length ?ra' \<le> length rxs" by (rule length_dropWhile_le)
        then have m: "length fa + length ?ra' < length fa + length ra" using ra by simp
        have ge: "\<forall>x \<in> set fa. ?fc \<le> x" using fa fgt by auto
        have sub: "set ?ra' \<subseteq> set ra" using dropWhile_less_split(1)[of ?fc rxs] ra by auto
        have sm: "\<forall>x \<in> set ra - set ?ra'. x < ?fc"
        proof
          fix x assume x: "x \<in> set ra - set ?ra'"
          show "x < ?fc"
          proof (cases "x = ?rc")
            case True
            then show ?thesis using gt by simp
          next
            case False
            then have "x \<in> set rxs - set ?ra'" using x by (subst (asm) ra) simp
            then show ?thesis using dropWhile_less_split(2)[of rxs ?fc] by blast
          qed
        qed
        have w: "without fa ra = without fa ?ra'"
          using without_skip[OF ge sub sm] .
        from less.hyps[OF m pf pr', of cur] show ?thesis
          unfolding l w .
      qed
    qed
  qed
qed

lemma removedPostings_Err_simp:
  "removedPostings_Err F R (removedPostings full remove cur ini fok rok) =
     (if Err F full \<noteq> None then Err F full else Err R remove)"
  by simp

lemma steps_removedPostings:
  assumes cF: "conforming F iF" and cR: "conforming R iR"
  shows "steps (removedPostings_Postings F R) (removed_rel F R iF iR)"
  unfolding steps_def
proof (intro allI impI)
  fix st out
  assume rel: "removed_rel F R iF iR st out"
  obtain full remove cur ini fok rok where st: "st = removedPostings full remove cur ini fok rok"
    by (cases st)
  let ?P = "removedPostings_Postings F R"
  have goal: "case without fa ra of
           [] \<Rightarrow> (\<exists>st'. Next ?P st = Some (False, st') \<and> Err ?P st' = None)
         | y # ys \<Rightarrow> (\<exists>st'. Next ?P st = Some (True, st') \<and> At ?P st' = y
                        \<and> removed_rel F R iF iR st' ys)"
    if a: "if ini then positioned F iF full fok fa \<and> positioned R iR remove rok ra
           else (\<exists>pf pr. iF full pf fa \<and> iR remove pr ra)" for fa ra
  proof (cases ini)
    case True
    then have p: "positioned F iF full fok fa" "positioned R iR remove rok ra" using a by auto
    have n: "removedPostings_Next F R st = removedPostings_Next_loop F R (removedPostings full remove cur True fok rok)"
      using True st by simp
    show ?thesis
      unfolding removedPostings_sel n using removedPostings_Next_loop_spec[OF cF cR p, of cur] .
  next
    case False
    then obtain pf pr where i: "iF full pf fa" "iR remove pr ra" using a by auto
    obtain fok' full' where nf: "Next F full = Some (fok', full')"
      and pf': "positioned F iF full' fok' fa"
      using positioned_after_Next[OF cF i(1)] by blast
    obtain rok' remove' where nr: "Next R remove = Some (rok', remove')"
      and pr': "positioned R iR remove' rok' ra"
      using positioned_after_Next[OF cR i(2)] by blast
    have n: "removedPostings_Next F R st = removedPostings_Next_loop F R (removedPostings full' remove' cur True fok' rok')"
      using False st nf nr by simp
    show ?thesis
      unfolding removedPostings_sel n using removedPostings_Next_loop_spec[OF cF cR pf' pr', of cur] .
  qed
  obtain fa ra where o: "out = without fa ra"
    and a: "if ini then positioned F iF full fok fa \<and> positioned R iR remove rok ra
            else (\<exists>pf pr. iF full pf fa \<and> iR remove pr ra)"
    using rel st by (auto simp: removed_rel_def)
  show "case out of
           [] \<Rightarrow> (\<exists>s'. Next ?P st = Some (False, s') \<and> Err ?P s' = None)
         | x # r \<Rightarrow> (\<exists>s'. Next ?P st = Some (True, s') \<and> At ?P s' = x
                        \<and> removed_rel F R iF iR s' r)"
    unfolding o using goal[OF a] .
qed


text \<open>
  C5. For conforming iterators \<open>full\<close> and \<open>drop\<close>, expanding \<open>Without(full, drop)\<close> gives
  exactly the values of \<open>full\<close> that are not values of \<open>drop\<close>, in the order of \<open>full\<close>,
  and no error. \<open>Without\<close> returns the empty sentinel when \<open>full\<close> is the sentinel, and
  \<open>full\<close> itself when only \<open>drop\<close> is.
\<close>

theorem Without_expands:
  assumes "conforming F iterF" and "conforming R iterR"
    and "iterF full pf fxs" and "iterR drop' pr rxs"
  shows "ExpandPostings (Without_Postings F R) (Without F R full drop')
           = Some (filter (\<lambda>x. x \<notin> set rxs) fxs, None)
       \<and> (IsEmptyPostingsType F full \<longrightarrow> Without F R full drop' = Inl EmptyPostings)
       \<and> (\<not> IsEmptyPostingsType F full \<and> IsEmptyPostingsType R drop'
            \<longrightarrow> Without F R full drop' = Inr (Inl full))"
proof -
  have e: "ExpandPostings (Without_Postings F R) (Without F R full drop')
           = Some (filter (\<lambda>x. x \<notin> set rxs) fxs, None)"
  proof (cases "IsEmptyPostingsType F full")
    case True
    then have "fxs = []" using conformingD(3)[OF assms(1,3)] by simp
    moreover have "ExpandPostings (Without_Postings F R) (Inl EmptyPostings) = Some ([], None)"
      unfolding Without_Postings_def
      by (rule ExpandPostings_Inl) (simp add: ExpandPostings_errPostings EmptyPostings_def emptyPostings_def)
    ultimately show ?thesis using True by (simp add: Without_def)
  next
    case nf: False
    show ?thesis
    proof (cases "IsEmptyPostingsType R drop'")
      case True
      then have "rxs = []" using conformingD(3)[OF assms(2,4)] by simp
      moreover have "ExpandPostings (Without_Postings F R) (Inr (Inl full)) = Some (fxs, None)"
        unfolding Without_Postings_def
        by (intro ExpandPostings_Inr ExpandPostings_Inl ExpandPostings_conforming[OF assms(1,3)])
      ultimately show ?thesis using True nf by (simp add: Without_def)
    next
      case False
      have "removed_rel F R iterF iterR (newRemovedPostings full drop') (without fxs rxs)"
        using assms(3,4) by (auto simp: removed_rel_def newRemovedPostings_def)
      then have "ExpandPostings (removedPostings_Postings F R) (newRemovedPostings full drop')
                  = Some (without fxs rxs, None)"
        using ExpandPostings_steps[OF steps_removedPostings[OF assms(1,2)]] by blast
      then have "ExpandPostings (Without_Postings F R) (Inr (Inr (newRemovedPostings full drop')))
                  = Some (without fxs rxs, None)"
        unfolding Without_Postings_def
        by (intro ExpandPostings_Inr)
      then show ?thesis using False nf by (simp add: Without_def without_def)
    qed
  qed
  show ?thesis using e by (simp add: Without_def)
qed

theorem Without_expands_witness:
  "ExpandPostings (Without_Postings ListPostings_Postings ListPostings_Postings)
     (Without ListPostings_Postings ListPostings_Postings
        (newListPostings [1, 2, 3, 4, 5]) (newListPostings [2, 4]))
     = Some ([1, 3, 5], None)"
proof -
  have f: "ListPostings_iter (newListPostings [1, 2, 3, 4, 5]) None [1, 2, 3, 4, 5]"
    by (simp add: newListPostings_def)
  have r: "ListPostings_iter (newListPostings [2, 4]) None [2, 4]"
    by (simp add: newListPostings_def)
  show ?thesis
    using Without_expands[OF conforming_ListPostings conforming_ListPostings, OF f r]
    by simp
qed

subsection \<open>Intersect\<close>

lemma positioned_sorted:
  assumes "conforming P iter" "positioned P iter s True av"
  shows "sorted_wrt (<) av" "av \<noteq> []" "hd av = At P s"
proof -
  obtain xs where a: "av = At P s # xs" "sorted_wrt (<) xs" "\<forall>x \<in> set xs. At P s < x"
    using positioned_True[OF assms] by blast
  show "sorted_wrt (<) av" "av \<noteq> []" "hd av = At P s" using a by auto
qed

lemma set_dropWhile_less:
  assumes "sorted_wrt (<) (av :: nat list)"
  shows "set (dropWhile (\<lambda>x. x < c) av) = {x \<in> set av. c \<le> x}"
  using assms
proof (induction av)
  case Nil
  then show ?case by simp
next
  case (Cons a av)
  show ?case
  proof (cases "a < c")
    case True
    then show ?thesis using Cons by auto
  next
    case False
    then have "\<forall>x \<in> set av. c \<le> x" using Cons.prems by auto
    then show ?thesis using False by auto
  qed
qed

lemma dropWhile_dropWhile_less:
  assumes "sorted_wrt (<) (av :: nat list)" "d \<le> m"
  shows "dropWhile (\<lambda>x. x < m) (dropWhile (\<lambda>x. x < d) av) = dropWhile (\<lambda>x. x < m) av"
  using assms
proof (induction av)
  case Nil
  then show ?case by simp
next
  case (Cons a av)
  then show ?case by (cases "a < d") auto
qed

lemma sorted_wrt_dropWhile:
  "sorted_wrt (<) (av :: nat list) \<Longrightarrow> sorted_wrt (<) (dropWhile Q av)"
  by (metis sorted_wrt_append takeWhile_dropWhile_id)

lemma positioned_Seek:
  assumes cP: "conforming P iter" and p: "positioned P iter s True av"
  shows "\<exists>ok s'. Seek P s v = Some (ok, s')
           \<and> positioned P iter s' ok (dropWhile (\<lambda>x. x < v) av)
           \<and> (At P s < v \<or> s' = s)"
proof -
  obtain xs where a: "av = At P s # xs" and it: "iter s (Some (At P s)) xs"
    using positioned_True[OF cP p] by blast
  show ?thesis
  proof (cases "v \<le> At P s")
    case True
    have "Seek P s v = Some (True, s)" using conforming_Seek_noop[OF cP it True] .
    moreover have "dropWhile (\<lambda>x. x < v) av = av" using True a by simp
    ultimately have "Seek P s v = Some (True, s)
           \<and> positioned P iter s True (dropWhile (\<lambda>x. x < v) av) \<and> (At P s < v \<or> s = s)"
      using p by simp
    then show ?thesis by blast
  next
    case False
    then have lt: "At P s < v" by simp
    then have pos: "case Some (At P s) of None \<Rightarrow> 0 < v | Some c \<Rightarrow> c < v" by simp
    have d: "dropWhile (\<lambda>x. x < v) av = dropWhile (\<lambda>x. x < v) xs" using lt a by simp
    show ?thesis
    proof (cases "dropWhile (\<lambda>x. x < v) xs")
      case Nil
      then obtain s' where "Seek P s v = Some (False, s')" "Err P s' = None"
        using conforming_Seek_Nil[OF cP it pos] by blast
      then have "Seek P s v = Some (False, s') \<and> positioned P iter s' False (dropWhile (\<lambda>x. x < v) av)"
        unfolding d using Nil by (simp del: dropWhile_eq_Nil_conv)
      then show ?thesis using lt by blast
    next
      case (Cons y ys)
      then obtain s' where "Seek P s v = Some (True, s')" "iter s' (Some y) ys"
        using conforming_Seek_Cons[OF cP it pos] by blast
      then have "Seek P s v = Some (True, s') \<and> positioned P iter s' True (dropWhile (\<lambda>x. x < v) av)"
        unfolding d using Cons by (simp add: positioned_def)
      then show ?thesis using lt by blast
    qed
  qed
qed

lemma list_all2_positioned_Err:
  assumes "conforming P iter" "list_all2 (\<lambda>s av. positioned P iter s ok av) ps avs"
  shows "\<forall>s \<in> set ps. Err P s = None"
  using assms(2)
proof (induction rule: list_all2_induct)
  case Nil
  then show ?case by simp
next
  case (Cons s ps av avs)
  then show ?case using positioned_Err[OF assms(1)] by auto
qed

lemma doNext_sweep_spec:
  assumes cP: "conforming P iter"
    and "list_all2 (\<lambda>s av. positioned P iter s True av) ps avs"
    and "\<forall>av \<in> set avs. hd av \<le> cur"
  shows "\<exists>r ps'. doNext_sweep P cur ps = Some (r, ps') \<and>
     (case r of
        ReturnTrue \<Rightarrow>
          list_all2 (\<lambda>s av. positioned P iter s True (dropWhile (\<lambda>x. x < cur) av) \<and> At P s = cur) ps' avs
      | ReturnFalse \<Rightarrow> (\<exists>av \<in> set avs. \<forall>x \<in> set av. x < cur) \<and> (\<forall>s \<in> set ps'. Err P s = None)
      | ContinueLoop c \<Rightarrow>
          cur < c \<and> (\<exists>av \<in> set avs. \<forall>x \<in> set av. cur \<le> x \<longrightarrow> c \<le> x) \<and>
          (\<exists>avs'. list_all2 (\<lambda>s av. positioned P iter s True av) ps' avs'
                \<and> (\<forall>av' \<in> set avs'. hd av' \<le> c)
                \<and> list_all2 (\<lambda>av' av. \<exists>d \<le> c. av' = dropWhile (\<lambda>x. x < d) av) avs' avs
                \<and> sum_list (map length avs') < sum_list (map length avs)))"
  using assms(2,3)
proof (induction ps arbitrary: avs)
  case Nil
  then show ?case by simp
next
  case (Cons p ps)
  obtain av avs0 where avs: "avs = av # avs0"
    and pp: "positioned P iter p True av"
    and pr: "list_all2 (\<lambda>s av. positioned P iter s True av) ps avs0"
    using Cons.prems(1) by (auto simp: list_all2_Cons1)
  have hd_av: "hd av \<le> cur" and hd0: "\<forall>av \<in> set avs0. hd av \<le> cur"
    using Cons.prems(2) avs by auto
  have sav: "sorted_wrt (<) av" and hav: "hd av = At P p" and nav: "av \<noteq> []"
    using positioned_sorted[OF cP pp] by auto
  let ?dv = "dropWhile (\<lambda>x. x < cur) av"
  obtain ok p' where sk: "Seek P p cur = Some (ok, p')"
    and pp': "positioned P iter p' ok ?dv"
    and mv: "At P p < cur \<or> p' = p"
    using positioned_Seek[OF cP pp, of cur] by blast
  have errs0: "\<forall>s \<in> set ps. Err P s = None"
    using list_all2_positioned_Err[OF cP pr] .
  show ?case
  proof (cases ok)
    case False
    then have "?dv = []" and e: "Err P p' = None" using pp' by auto
    then have "\<forall>x \<in> set av. x < cur" by simp
    moreover have "doNext_sweep P cur (p # ps) = Some (ReturnFalse, p' # ps)"
      using sk False by simp
    ultimately show ?thesis using avs e errs0 by simp
  next
    case True
    then have ppT: "positioned P iter p' True ?dv" using pp' by simp
    have hdv: "hd ?dv = At P p'" and ndv: "?dv \<noteq> []"
      using positioned_sorted[OF cP ppT] by auto
    have ge: "cur \<le> At P p'"
      using hd_dropWhile[OF ndv] hdv by simp
    show ?thesis
    proof (cases "cur < At P p'")
      case gt: True
      let ?c = "At P p'"
      have sw: "doNext_sweep P cur (p # ps) = Some (ContinueLoop ?c, p' # ps)"
        using sk True gt by simp
      have gap: "\<forall>x \<in> set av. cur \<le> x \<longrightarrow> ?c \<le> x"
      proof (intro ballI impI)
        fix x assume "x \<in> set av" "cur \<le> x"
        then have xin: "x \<in> set ?dv" using set_dropWhile_less[OF sav, of cur] by simp
        have "sorted_wrt (<) ?dv" using sav by (rule sorted_wrt_dropWhile)
        then have "sorted ?dv" by (simp add: strict_sorted_iff)
        then have "hd ?dv \<le> x" using xin ndv by (cases ?dv) auto
        then show "?c \<le> x" using hdv by simp
      qed
      have "p' \<noteq> p" using gt hav hd_av by auto
      then have "At P p < cur" using mv by simp
      then have "hd av < cur" using hav by simp
      then have dtl: "?dv = dropWhile (\<lambda>x. x < cur) (tl av)" using nav by (cases av) auto
      have "length (dropWhile (\<lambda>x. x < cur) (tl av)) \<le> length (tl av)"
        by (rule length_dropWhile_le)
      then have "length ?dv \<le> length (tl av)" using dtl by simp
      then have len: "length ?dv < length av" using nav by (cases av) auto
      let ?avs' = "?dv # avs0"
      have a1: "list_all2 (\<lambda>s av. positioned P iter s True av) (p' # ps) ?avs'"
        using ppT pr by simp
      have a2: "\<forall>av' \<in> set ?avs'. hd av' \<le> ?c" using hdv hd0 gt by auto
      have "\<And>a. \<exists>d \<le> ?c. a = dropWhile (\<lambda>x. x < d) a"
        by (rule exI[of _ 0]) simp
      then have "list_all2 (\<lambda>av' av. \<exists>d \<le> ?c. av' = dropWhile (\<lambda>x. x < d) av) avs0 avs0"
        by (simp add: list_all2_same)
      moreover have "\<exists>d \<le> ?c. ?dv = dropWhile (\<lambda>x. x < d) av" using ge by blast
      ultimately have a3: "list_all2 (\<lambda>av' av. \<exists>d \<le> ?c. av' = dropWhile (\<lambda>x. x < d) av) ?avs' avs"
        using avs by simp
      have a4: "sum_list (map length ?avs') < sum_list (map length avs)" using len avs by simp
      have "cur < ?c \<and> (\<exists>av \<in> set avs. \<forall>x \<in> set av. cur \<le> x \<longrightarrow> ?c \<le> x) \<and>
          (\<exists>avs'. list_all2 (\<lambda>s av. positioned P iter s True av) (p' # ps) avs'
                \<and> (\<forall>av' \<in> set avs'. hd av' \<le> ?c)
                \<and> list_all2 (\<lambda>av' av. \<exists>d \<le> ?c. av' = dropWhile (\<lambda>x. x < d) av) avs' avs
                \<and> sum_list (map length avs') < sum_list (map length avs))"
        using gt gap a1 a2 a3 a4 avs by (intro conjI exI[of _ ?avs']) auto
      then show ?thesis using sw by simp
    next
      case False
      then have eq: "At P p' = cur" using ge by simp
      obtain r ps0 where sw0: "doNext_sweep P cur ps = Some (r, ps0)"
        and sp0: "case r of
        ReturnTrue \<Rightarrow>
          list_all2 (\<lambda>s av. positioned P iter s True (dropWhile (\<lambda>x. x < cur) av) \<and> At P s = cur) ps0 avs0
      | ReturnFalse \<Rightarrow> (\<exists>av \<in> set avs0. \<forall>x \<in> set av. x < cur) \<and> (\<forall>s \<in> set ps0. Err P s = None)
      | ContinueLoop c \<Rightarrow>
          cur < c \<and> (\<exists>av \<in> set avs0. \<forall>x \<in> set av. cur \<le> x \<longrightarrow> c \<le> x) \<and>
          (\<exists>avs'. list_all2 (\<lambda>s av. positioned P iter s True av) ps0 avs'
                \<and> (\<forall>av' \<in> set avs'. hd av' \<le> c)
                \<and> list_all2 (\<lambda>av' av. \<exists>d \<le> c. av' = dropWhile (\<lambda>x. x < d) av) avs' avs0
                \<and> sum_list (map length avs') < sum_list (map length avs0))"
        using Cons.IH[OF pr hd0] by blast
      have sw: "doNext_sweep P cur (p # ps) = Some (r, p' # ps0)"
        using sk True eq sw0 by simp
      show ?thesis
      proof (cases r)
        case ReturnTrue
        then show ?thesis using sw sp0 ppT eq avs by simp
      next
        case ReturnFalse
        then show ?thesis using sw sp0 positioned_Err[OF cP ppT] avs by auto
      next
        case (ContinueLoop c)
        then obtain avs' where c: "cur < c" "\<exists>av \<in> set avs0. \<forall>x \<in> set av. cur \<le> x \<longrightarrow> c \<le> x"
          and b1: "list_all2 (\<lambda>s av. positioned P iter s True av) ps0 avs'"
          and b2: "\<forall>av' \<in> set avs'. hd av' \<le> c"
          and b3: "list_all2 (\<lambda>av' av. \<exists>d \<le> c. av' = dropWhile (\<lambda>x. x < d) av) avs' avs0"
          and b4: "sum_list (map length avs') < sum_list (map length avs0)"
          using sp0 by auto
        let ?avs' = "?dv # avs'"
        have a1: "list_all2 (\<lambda>s av. positioned P iter s True av) (p' # ps0) ?avs'"
          using ppT b1 by simp
        have a2: "\<forall>av' \<in> set ?avs'. hd av' \<le> c" using hdv eq c(1) b2 by auto
        have "\<exists>d \<le> c. ?dv = dropWhile (\<lambda>x. x < d) av" using c(1) less_imp_le by blast
        then have a3: "list_all2 (\<lambda>av' av. \<exists>d \<le> c. av' = dropWhile (\<lambda>x. x < d) av) ?avs' avs"
          using b3 avs by simp
        have "length ?dv \<le> length av" by (rule length_dropWhile_le)
        then have a4: "sum_list (map length ?avs') < sum_list (map length avs)" using b4 avs by simp
        have "cur < c \<and> (\<exists>av \<in> set avs. \<forall>x \<in> set av. cur \<le> x \<longrightarrow> c \<le> x) \<and>
          (\<exists>avs'. list_all2 (\<lambda>s av. positioned P iter s True av) (p' # ps0) avs'
                \<and> (\<forall>av' \<in> set avs'. hd av' \<le> c)
                \<and> list_all2 (\<lambda>av' av. \<exists>d \<le> c. av' = dropWhile (\<lambda>x. x < d) av) avs' avs
                \<and> sum_list (map length avs') < sum_list (map length avs))"
          using c a1 a2 a3 a4 avs by (intro conjI exI[of _ ?avs']) auto
        then show ?thesis using sw ContinueLoop by simp
      qed
    qed
  qed
qed

lemma list_all2_positioned_sorted:
  assumes "conforming P iter" "list_all2 (\<lambda>s av. positioned P iter s True av) ps avs"
  shows "\<forall>av \<in> set avs. sorted_wrt (<) av \<and> av \<noteq> []"
  using assms(2)
proof (induction rule: list_all2_induct)
  case Nil
  then show ?case by simp
next
  case (Cons s ps av avs)
  then show ?case using positioned_sorted[OF assms(1)] by auto
qed

lemma doNext_spec:
  assumes cP: "conforming P iter"
    and "list_all2 (\<lambda>s av. positioned P iter s True av) arr avs"
    and "\<forall>av \<in> set avs. hd av \<le> cur"
  shows "\<exists>b arr' cur'. doNext P arr cur = Some (b, intersectPostings arr' cur') \<and>
     (if \<exists>x \<ge> cur. \<forall>av \<in> set avs. x \<in> set av
      then b \<and> cur \<le> cur' \<and> (\<forall>av \<in> set avs. cur' \<in> set av)
         \<and> (\<forall>x. cur \<le> x \<and> (\<forall>av \<in> set avs. x \<in> set av) \<longrightarrow> cur' \<le> x)
         \<and> list_all2 (\<lambda>s av. positioned P iter s True (dropWhile (\<lambda>x. x < cur') av) \<and> At P s = cur')
              arr' avs
      else \<not> b \<and> (\<forall>s \<in> set arr'. Err P s = None))"
  using assms(2,3)
proof (induction "sum_list (map length avs)" arbitrary: arr avs cur rule: less_induct)
  case less
  note pa = less.prems(1) and hd = less.prems(2)
  have srt: "\<forall>av \<in> set avs. sorted_wrt (<) av \<and> av \<noteq> []"
    using list_all2_positioned_sorted[OF cP pa] .
  obtain r ps' where sw: "doNext_sweep P cur arr = Some (r, ps')"
    and sp: "case r of
        ReturnTrue \<Rightarrow>
          list_all2 (\<lambda>s av. positioned P iter s True (dropWhile (\<lambda>x. x < cur) av) \<and> At P s = cur) ps' avs
      | ReturnFalse \<Rightarrow> (\<exists>av \<in> set avs. \<forall>x \<in> set av. x < cur) \<and> (\<forall>s \<in> set ps'. Err P s = None)
      | ContinueLoop c \<Rightarrow>
          cur < c \<and> (\<exists>av \<in> set avs. \<forall>x \<in> set av. cur \<le> x \<longrightarrow> c \<le> x) \<and>
          (\<exists>avs'. list_all2 (\<lambda>s av. positioned P iter s True av) ps' avs'
                \<and> (\<forall>av' \<in> set avs'. hd av' \<le> c)
                \<and> list_all2 (\<lambda>av' av. \<exists>d \<le> c. av' = dropWhile (\<lambda>x. x < d) av) avs' avs
                \<and> sum_list (map length avs') < sum_list (map length avs))"
    using doNext_sweep_spec[OF cP pa hd] by blast
  show ?case
  proof (cases r)
    case ReturnTrue
    have dn: "doNext P arr cur = Some (True, intersectPostings ps' cur)"
      using sw ReturnTrue by (subst doNext.simps) simp
    have la: "list_all2 (\<lambda>s av. positioned P iter s True (dropWhile (\<lambda>x. x < cur) av) \<and> At P s = cur) ps' avs"
      using sp ReturnTrue by simp
    have mem: "\<forall>av \<in> set avs. cur \<in> set av"
    proof
      fix av assume "av \<in> set avs"
      then obtain i where i: "i < length avs" "av = avs ! i" by (auto simp: in_set_conv_nth)
      have "positioned P iter (ps' ! i) True (dropWhile (\<lambda>x. x < cur) (avs ! i)) \<and> At P (ps' ! i) = cur"
        using list_all2_nthD2[OF la i(1)] .
      then have p: "positioned P iter (ps' ! i) True (dropWhile (\<lambda>x. x < cur) av)"
        and a: "At P (ps' ! i) = cur"
        using i(2) by simp_all
      have ne: "dropWhile (\<lambda>x. x < cur) av \<noteq> []"
        using positioned_sorted(2)[OF cP p] .
      have hq: "hd (dropWhile (\<lambda>x. x < cur) av) = cur"
        using positioned_sorted(3)[OF cP p] a by (simp only:)
      have "hd (dropWhile (\<lambda>x. x < cur) av) \<in> set (dropWhile (\<lambda>x. x < cur) av)"
        using ne by (rule hd_in_set)
      then have "cur \<in> set (dropWhile (\<lambda>x. x < cur) av)" unfolding hq .
      then show "cur \<in> set av" by (rule set_dropWhileD)
    qed
    then have ex: "\<exists>x \<ge> cur. \<forall>av \<in> set avs. x \<in> set av" by blast
    have "doNext P arr cur = Some (True, intersectPostings ps' cur) \<and>
     (if \<exists>x \<ge> cur. \<forall>av \<in> set avs. x \<in> set av
      then True \<and> cur \<le> cur \<and> (\<forall>av \<in> set avs. cur \<in> set av)
         \<and> (\<forall>x. cur \<le> x \<and> (\<forall>av \<in> set avs. x \<in> set av) \<longrightarrow> cur \<le> x)
         \<and> list_all2 (\<lambda>s av. positioned P iter s True (dropWhile (\<lambda>x. x < cur) av) \<and> At P s = cur)
              ps' avs
      else \<not> True \<and> (\<forall>s \<in> set ps'. Err P s = None))"
      unfolding if_P[OF ex] using dn mem la by blast
    then show ?thesis by blast
  next
    case ReturnFalse
    have dn: "doNext P arr cur = Some (False, intersectPostings ps' cur)"
      using sw ReturnFalse by (subst doNext.simps) simp
    have "\<exists>av \<in> set avs. \<forall>x \<in> set av. x < cur" and e: "\<forall>s \<in> set ps'. Err P s = None"
      using sp ReturnFalse by auto
    then have nex: "\<not> (\<exists>x \<ge> cur. \<forall>av \<in> set avs. x \<in> set av)" by (meson not_le)
    have "doNext P arr cur = Some (False, intersectPostings ps' cur) \<and>
     (if \<exists>x \<ge> cur. \<forall>av \<in> set avs. x \<in> set av
      then False \<and> cur \<le> cur \<and> (\<forall>av \<in> set avs. cur \<in> set av)
         \<and> (\<forall>x. cur \<le> x \<and> (\<forall>av \<in> set avs. x \<in> set av) \<longrightarrow> cur \<le> x)
         \<and> list_all2 (\<lambda>s av. positioned P iter s True (dropWhile (\<lambda>x. x < cur) av) \<and> At P s = cur)
              ps' avs
      else \<not> False \<and> (\<forall>s \<in> set ps'. Err P s = None))"
      unfolding if_not_P[OF nex] using dn e by blast
    then show ?thesis by blast
  next
    case (ContinueLoop c)
    have dn: "doNext P arr cur = doNext P ps' c"
      using sw ContinueLoop by (subst doNext.simps) simp
    obtain avs' where c: "cur < c" and gap: "\<exists>av \<in> set avs. \<forall>x \<in> set av. cur \<le> x \<longrightarrow> c \<le> x"
      and b1: "list_all2 (\<lambda>s av. positioned P iter s True av) ps' avs'"
      and b2: "\<forall>av' \<in> set avs'. hd av' \<le> c"
      and b3: "list_all2 (\<lambda>av' av. \<exists>d \<le> c. av' = dropWhile (\<lambda>x. x < d) av) avs' avs"
      and b4: "sum_list (map length avs') < sum_list (map length avs)"
      using sp ContinueLoop by auto
    have len: "length avs' = length avs" using b3 by (rule list_all2_lengthD)
    have nth: "\<And>i. i < length avs \<Longrightarrow> \<exists>d \<le> c. avs' ! i = dropWhile (\<lambda>x. x < d) (avs ! i)"
      using list_all2_nthD2[OF b3] .
    have srt_i: "\<And>i. i < length avs \<Longrightarrow> sorted_wrt (<) (avs ! i)" using srt by simp
    have memeq: "\<And>x i. i < length avs \<Longrightarrow> c \<le> x \<Longrightarrow> (x \<in> set (avs' ! i)) = (x \<in> set (avs ! i))"
    proof -
      fix x i assume i: "i < length avs" and x: "c \<le> x"
      obtain d where d: "d \<le> c" "avs' ! i = dropWhile (\<lambda>x. x < d) (avs ! i)" using nth[OF i] by blast
      show "(x \<in> set (avs' ! i)) = (x \<in> set (avs ! i))"
        using set_dropWhile_less[OF srt_i[OF i], of d] d x by auto
    qed
    have com: "\<And>x. c \<le> x \<Longrightarrow> (\<forall>av' \<in> set avs'. x \<in> set av') = (\<forall>av \<in> set avs. x \<in> set av)"
      using memeq len by (simp add: all_set_conv_all_nth)
    have up: "\<And>x. cur \<le> x \<Longrightarrow> \<forall>av \<in> set avs. x \<in> set av \<Longrightarrow> c \<le> x"
      using gap by blast
    have exeq: "(\<exists>x \<ge> c. \<forall>av' \<in> set avs'. x \<in> set av') = (\<exists>x \<ge> cur. \<forall>av \<in> set avs. x \<in> set av)"
    proof
      assume "\<exists>x \<ge> c. \<forall>av' \<in> set avs'. x \<in> set av'"
      then obtain x where "c \<le> x" "\<forall>av \<in> set avs. x \<in> set av" using com by blast
      then show "\<exists>x \<ge> cur. \<forall>av \<in> set avs. x \<in> set av" using c by (meson less_imp_le order_trans)
    next
      assume "\<exists>x \<ge> cur. \<forall>av \<in> set avs. x \<in> set av"
      then obtain x where x: "cur \<le> x" "\<forall>av \<in> set avs. x \<in> set av" by blast
      then have "c \<le> x" using up by blast
      then show "\<exists>x \<ge> c. \<forall>av' \<in> set avs'. x \<in> set av'" using com x(2) by blast
    qed
    obtain b arr' cur' where r: "doNext P ps' c = Some (b, intersectPostings arr' cur')"
      and rs: "if \<exists>x \<ge> c. \<forall>av \<in> set avs'. x \<in> set av
      then b \<and> c \<le> cur' \<and> (\<forall>av \<in> set avs'. cur' \<in> set av)
         \<and> (\<forall>x. c \<le> x \<and> (\<forall>av \<in> set avs'. x \<in> set av) \<longrightarrow> cur' \<le> x)
         \<and> list_all2 (\<lambda>s av. positioned P iter s True (dropWhile (\<lambda>x. x < cur') av) \<and> At P s = cur')
              arr' avs'
      else \<not> b \<and> (\<forall>s \<in> set arr'. Err P s = None)"
      using less.hyps[OF b4 b1 b2] by blast
    show ?thesis
    proof (cases "\<exists>x \<ge> cur. \<forall>av \<in> set avs. x \<in> set av")
      case False
      then have nex': "\<not> (\<exists>x \<ge> c. \<forall>av \<in> set avs'. x \<in> set av)" using exeq by blast
      have "\<not> b \<and> (\<forall>s \<in> set arr'. Err P s = None)" using rs unfolding if_not_P[OF nex'] .
      then have "doNext P arr cur = Some (b, intersectPostings arr' cur') \<and>
     (if \<exists>x \<ge> cur. \<forall>av \<in> set avs. x \<in> set av
      then b \<and> cur \<le> cur' \<and> (\<forall>av \<in> set avs. cur' \<in> set av)
         \<and> (\<forall>x. cur \<le> x \<and> (\<forall>av \<in> set avs. x \<in> set av) \<longrightarrow> cur' \<le> x)
         \<and> list_all2 (\<lambda>s av. positioned P iter s True (dropWhile (\<lambda>x. x < cur') av) \<and> At P s = cur')
              arr' avs
      else \<not> b \<and> (\<forall>s \<in> set arr'. Err P s = None))"
        unfolding if_not_P[OF False] using dn r by simp
      then show ?thesis by blast
    next
      case True
      then have ex': "\<exists>x \<ge> c. \<forall>av \<in> set avs'. x \<in> set av" using exeq by blast
      have rs': "b \<and> c \<le> cur' \<and> (\<forall>av \<in> set avs'. cur' \<in> set av)
         \<and> (\<forall>x. c \<le> x \<and> (\<forall>av \<in> set avs'. x \<in> set av) \<longrightarrow> cur' \<le> x)
         \<and> list_all2 (\<lambda>s av. positioned P iter s True (dropWhile (\<lambda>x. x < cur') av) \<and> At P s = cur')
              arr' avs'"
        using rs unfolding if_P[OF ex'] .
      have t: "b" "c \<le> cur'" "\<forall>av \<in> set avs'. cur' \<in> set av"
        "\<forall>x. c \<le> x \<and> (\<forall>av \<in> set avs'. x \<in> set av) \<longrightarrow> cur' \<le> x"
        and la: "list_all2 (\<lambda>s av. positioned P iter s True (dropWhile (\<lambda>x. x < cur') av) \<and> At P s = cur')
              arr' avs'"
        using rs' by blast+
      have g1: "cur \<le> cur'" using t(2) c by simp
      have g2: "\<forall>av \<in> set avs. cur' \<in> set av" using com[OF t(2)] t(3) by simp
      have g3: "\<forall>x. cur \<le> x \<and> (\<forall>av \<in> set avs. x \<in> set av) \<longrightarrow> cur' \<le> x"
      proof (intro allI impI)
        fix x assume x: "cur \<le> x \<and> (\<forall>av \<in> set avs. x \<in> set av)"
        then have cx: "c \<le> x" using up by blast
        then have "\<forall>av \<in> set avs'. x \<in> set av" using com x by blast
        then show "cur' \<le> x" using t(4) cx by blast
      qed
      have g4: "list_all2 (\<lambda>s av. positioned P iter s True (dropWhile (\<lambda>x. x < cur') av) \<and> At P s = cur')
              arr' avs"
      proof (rule list_all2_all_nthI)
        show "length arr' = length avs" using la len by (simp add: list_all2_lengthD)
      next
        fix i assume "i < length arr'"
        then have i: "i < length avs" using la len by (simp add: list_all2_lengthD)
        then have i': "i < length avs'" using len by simp
        obtain d where d: "d \<le> c" "avs' ! i = dropWhile (\<lambda>x. x < d) (avs ! i)" using nth[OF i] by blast
        have "d \<le> cur'" using d(1) t(2) by simp
        then have "dropWhile (\<lambda>x. x < cur') (avs' ! i) = dropWhile (\<lambda>x. x < cur') (avs ! i)"
          using dropWhile_dropWhile_less[OF srt_i[OF i]] d(2) by simp
        moreover have "positioned P iter (arr' ! i) True (dropWhile (\<lambda>x. x < cur') (avs' ! i)) \<and> At P (arr' ! i) = cur'"
          using list_all2_nthD2[OF la i'] .
        ultimately show "positioned P iter (arr' ! i) True (dropWhile (\<lambda>x. x < cur') (avs ! i)) \<and> At P (arr' ! i) = cur'"
          by simp
      qed
      have "doNext P arr cur = Some (b, intersectPostings arr' cur') \<and>
     (if \<exists>x \<ge> cur. \<forall>av \<in> set avs. x \<in> set av
      then b \<and> cur \<le> cur' \<and> (\<forall>av \<in> set avs. cur' \<in> set av)
         \<and> (\<forall>x. cur \<le> x \<and> (\<forall>av \<in> set avs. x \<in> set av) \<longrightarrow> cur' \<le> x)
         \<and> list_all2 (\<lambda>s av. positioned P iter s True (dropWhile (\<lambda>x. x < cur') av) \<and> At P s = cur')
              arr' avs
      else \<not> b \<and> (\<forall>s \<in> set arr'. Err P s = None))"
        unfolding if_P[OF True] using trans[OF dn r] t(1) g1 g2 g3 g4 by (intro conjI)
      then show ?thesis by blast
    qed
  qed
qed

lemma common_set:
  "xss \<noteq> [] \<Longrightarrow> set (common xss) = {x. \<forall>av \<in> set xss. x \<in> set av}"
  by (cases xss) (auto simp: common_def)

lemma common_Nil: "[] \<in> set xss \<Longrightarrow> common xss = []"
proof (cases xss)
  case Nil
  then show ?thesis by (simp add: common_def)
next
  case (Cons a list)
  assume e: "[] \<in> set xss"
  show ?thesis
  proof (cases "a = []")
    case True
    then show ?thesis using Cons by (simp add: common_def)
  next
    case False
    then have "[] \<in> set list" using e Cons by auto
    then have "\<And>x. \<exists>ys \<in> set list. x \<notin> set ys" by force
    then show ?thesis using Cons by (simp add: common_def filter_empty_conv)
  qed
qed

lemma intersectPostings_Err_loop_None:
  "\<forall>s \<in> set arr. Err P s = None \<Longrightarrow> intersectPostings_Err_loop P arr = None"
  by (induction arr) auto

lemma dropWhile_at:
  assumes "sorted_wrt (<) (av :: nat list)" "m \<in> set av"
  shows "dropWhile (\<lambda>x. x < m) av = m # tl (dropWhile (\<lambda>x. x < m) av)"
  using assms
proof (induction av)
  case Nil
  then show ?case by simp
next
  case (Cons a av)
  show ?case
  proof (cases "a < m")
    case True
    then have "m \<in> set av" using Cons.prems(2) by auto
    then show ?thesis using True Cons by simp
  next
    case False
    have "a = m"
    proof (rule ccontr)
      assume "a \<noteq> m"
      then have "m \<in> set av" using Cons.prems(2) by auto
      then have "a < m" using Cons.prems(1) by auto
      then show False using False by simp
    qed
    then show ?thesis by simp
  qed
qed

lemma set_tl_dropWhile_at:
  assumes "sorted_wrt (<) (av :: nat list)" "m \<in> set av"
  shows "set (tl (dropWhile (\<lambda>x. x < m) av)) = {x \<in> set av. m < x}"
proof -
  let ?d = "dropWhile (\<lambda>x. x < m) av"
  have d: "?d = m # tl ?d" using dropWhile_at[OF assms] .
  have "sorted_wrt (<) ?d" using assms(1) by (rule sorted_wrt_dropWhile)
  then have "sorted_wrt (<) (m # tl ?d)" using d by simp
  then have gt: "\<forall>x \<in> set (tl ?d). m < x" by simp
  have "set ?d = {x \<in> set av. m \<le> x}" using set_dropWhile_less[OF assms(1)] .
  then have "insert m (set (tl ?d)) = {x \<in> set av. m \<le> x}" using d by (metis list.simps(15))
  then show ?thesis using gt by (auto simp: less_le)
qed

lemma common_step:
  assumes "xss \<noteq> []" and srt: "\<forall>av \<in> set xss. sorted_wrt (<) av \<and> m \<in> set av"
    and least: "\<forall>x. (\<forall>av \<in> set xss. x \<in> set av) \<longrightarrow> m \<le> x"
  shows "common xss = m # common (map (\<lambda>av. tl (dropWhile (\<lambda>x. x < m) av)) xss)"
proof -
  obtain A rest where xss: "xss = A # rest" using assms(1) by (cases xss) auto
  let ?f = "\<lambda>av. tl (dropWhile (\<lambda>x. x < m) av)"
  let ?Pr = "\<lambda>x. \<forall>ys \<in> set rest. x \<in> set ys"
  let ?Pr' = "\<lambda>x. \<forall>ys \<in> set (map ?f rest). x \<in> set ys"
  let ?A' = "?f A"
  have sA: "sorted_wrt (<) A" and mA: "m \<in> set A" using srt xss by auto
  have dA: "dropWhile (\<lambda>x. x < m) A = m # ?A'" using dropWhile_at[OF sA mA] .
  have A: "A = takeWhile (\<lambda>x. x < m) A @ m # ?A'"
    using dA by (metis takeWhile_dropWhile_id)
  have t: "filter ?Pr (takeWhile (\<lambda>x. x < m) A) = []"
  proof -
    have "\<not> ?Pr x" if "x \<in> set (takeWhile (\<lambda>x. x < m) A)" for x
    proof
      assume p: "?Pr x"
      have xm: "x < m" and xA: "x \<in> set A" using that set_takeWhileD by fastforce+
      then have "\<forall>av \<in> set xss. x \<in> set av" using p xss by simp
      then have "m \<le> x" using least by blast
      then show False using xm by simp
    qed
    then show ?thesis by (simp add: filter_empty_conv)
  qed
  have pm: "?Pr m" using srt xss by simp
  have gtA: "\<forall>x \<in> set ?A'. m < x" using set_tl_dropWhile_at[OF sA mA] by blast
  have c: "filter ?Pr' ?A' = filter ?Pr ?A'"
  proof (rule filter_cong[OF refl])
    fix x assume "x \<in> set ?A'"
    then have mx: "m < x" using gtA by blast
    have "\<And>ys. ys \<in> set rest \<Longrightarrow> (x \<in> set (?f ys)) = (x \<in> set ys)"
    proof -
      fix ys assume "ys \<in> set rest"
      then have "sorted_wrt (<) ys" "m \<in> set ys" using srt xss by auto
      then show "(x \<in> set (?f ys)) = (x \<in> set ys)"
        using set_tl_dropWhile_at[of ys m] mx by simp
    qed
    then show "?Pr' x = ?Pr x" by simp
  qed
  have "common xss = filter ?Pr A" using xss by (simp add: common_def)
  also have "\<dots> = filter ?Pr (takeWhile (\<lambda>x. x < m) A) @ filter ?Pr (m # ?A')"
    by (subst A) (simp only: filter_append)
  also have "\<dots> = m # filter ?Pr ?A'" using t pm by simp
  also have "\<dots> = m # filter ?Pr' ?A'" using c by simp
  also have "\<dots> = m # common (map ?f xss)" using xss by (simp add: common_def)
  finally show ?thesis .
qed

lemma intersectPostings_Next_loop_spec:
  assumes cP: "conforming P iter"
    and "list_all2 (\<lambda>s xs. \<exists>pos. iter s pos xs) ps xss"
  shows "\<exists>ok ps' cur'. intersectPostings_Next_loop P cur ps = Some (ok, ps', cur') \<and>
     (if [] \<in> set xss then \<not> ok \<and> (\<forall>s \<in> set ps'. Err P s = None)
      else ok \<and> list_all2 (\<lambda>s av. positioned P iter s True av) ps' xss \<and> cur \<le> cur'
         \<and> (\<forall>av \<in> set xss. hd av \<le> cur')
         \<and> (cur' = cur \<or> (\<exists>av \<in> set xss. cur' = hd av)))"
  using assms(2)
proof (induction ps arbitrary: xss cur)
  case Nil
  then have "xss = []" by simp
  then have "intersectPostings_Next_loop P cur [] = Some (True, [], cur) \<and>
     (if [] \<in> set xss then \<not> True \<and> (\<forall>s \<in> set []. Err P s = None)
      else True \<and> list_all2 (\<lambda>s av. positioned P iter s True av) [] xss \<and> cur \<le> cur
         \<and> (\<forall>av \<in> set xss. hd av \<le> cur)
         \<and> (cur = cur \<or> (\<exists>av \<in> set xss. cur = hd av)))"
    by simp
  then show ?case by blast
next
  case (Cons p ps)
  obtain xs xss0 where xss: "xss = xs # xss0"
    and ip: "\<exists>pos. iter p pos xs"
    and ir: "list_all2 (\<lambda>s xs. \<exists>pos. iter s pos xs) ps xss0"
    using Cons.prems by (auto simp: list_all2_Cons1)
  obtain pos where ip': "iter p pos xs" using ip by blast
  obtain ok p' where n: "Next P p = Some (ok, p')" and pp: "positioned P iter p' ok xs"
    using positioned_after_Next[OF cP ip'] by blast
  have errs: "\<forall>s \<in> set ps. Err P s = None"
    using ir conformingD(2)[OF cP] by (induction rule: list_all2_induct) auto
  show ?case
  proof (cases ok)
    case False
    then have "xs = []" and e: "Err P p' = None" using pp by auto
    moreover have "intersectPostings_Next_loop P cur (p # ps) = Some (False, p' # ps, cur)"
      using n False by simp
    ultimately have "intersectPostings_Next_loop P cur (p # ps) = Some (False, p' # ps, cur) \<and>
     (if [] \<in> set xss then \<not> False \<and> (\<forall>s \<in> set (p' # ps). Err P s = None)
      else False \<and> list_all2 (\<lambda>s av. positioned P iter s True av) (p' # ps) xss \<and> cur \<le> cur
         \<and> (\<forall>av \<in> set xss. hd av \<le> cur)
         \<and> (cur = cur \<or> (\<exists>av \<in> set xss. cur = hd av)))"
      using xss errs by simp
    then show ?thesis by blast
  next
    case True
    then have ppT: "positioned P iter p' True xs" using pp by simp
    have nxs: "xs \<noteq> []" and hxs: "hd xs = At P p'" using positioned_sorted[OF cP ppT] by auto
    let ?c1 = "if At P p' > cur then At P p' else cur"
    obtain ok0 ps0 c0 where r: "intersectPostings_Next_loop P ?c1 ps = Some (ok0, ps0, c0)"
      and rs: "if [] \<in> set xss0 then \<not> ok0 \<and> (\<forall>s \<in> set ps0. Err P s = None)
      else ok0 \<and> list_all2 (\<lambda>s av. positioned P iter s True av) ps0 xss0 \<and> ?c1 \<le> c0
         \<and> (\<forall>av \<in> set xss0. hd av \<le> c0)
         \<and> (c0 = ?c1 \<or> (\<exists>av \<in> set xss0. c0 = hd av))"
      using Cons.IH[OF ir, of ?c1] by blast
    have nl: "intersectPostings_Next_loop P cur (p # ps) = Some (ok0, p' # ps0, c0)"
      using n True r by (simp add: Let_def)
    show ?thesis
    proof (cases "[] \<in> set xss0")
      case e: True
      then have "\<not> ok0 \<and> (\<forall>s \<in> set ps0. Err P s = None)" using rs by simp
      then have "intersectPostings_Next_loop P cur (p # ps) = Some (ok0, p' # ps0, c0) \<and>
     (if [] \<in> set xss then \<not> ok0 \<and> (\<forall>s \<in> set (p' # ps0). Err P s = None)
      else ok0 \<and> list_all2 (\<lambda>s av. positioned P iter s True av) (p' # ps0) xss \<and> cur \<le> c0
         \<and> (\<forall>av \<in> set xss. hd av \<le> c0)
         \<and> (c0 = cur \<or> (\<exists>av \<in> set xss. c0 = hd av)))"
        using nl e xss positioned_Err[OF cP ppT] by simp
      then show ?thesis by blast
    next
      case ne: False
      then have t: "ok0" "list_all2 (\<lambda>s av. positioned P iter s True av) ps0 xss0" "?c1 \<le> c0"
        "\<forall>av \<in> set xss0. hd av \<le> c0" "c0 = ?c1 \<or> (\<exists>av \<in> set xss0. c0 = hd av)"
        using rs by simp_all
      have n2: "[] \<notin> set xss" using ne nxs xss by auto
      have g1: "list_all2 (\<lambda>s av. positioned P iter s True av) (p' # ps0) xss"
        using ppT t(2) xss by simp
      have g2: "cur \<le> c0" using t(3) by (simp split: if_splits)
      have "hd xs \<le> c0" using t(3) hxs by (simp split: if_splits)
      then have g3: "\<forall>av \<in> set xss. hd av \<le> c0" using t(4) xss by simp
      have g4: "c0 = cur \<or> (\<exists>av \<in> set xss. c0 = hd av)"
        using t(5) hxs xss by (auto split: if_splits)
      have "intersectPostings_Next_loop P cur (p # ps) = Some (ok0, p' # ps0, c0) \<and>
     (if [] \<in> set xss then \<not> ok0 \<and> (\<forall>s \<in> set (p' # ps0). Err P s = None)
      else ok0 \<and> list_all2 (\<lambda>s av. positioned P iter s True av) (p' # ps0) xss \<and> cur \<le> c0
         \<and> (\<forall>av \<in> set xss. hd av \<le> c0)
         \<and> (c0 = cur \<or> (\<exists>av \<in> set xss. c0 = hd av)))"
        unfolding if_not_P[OF n2] using nl t(1) g1 g2 g3 g4 by (intro conjI)
      then show ?thesis by blast
    qed
  qed
qed

lemma steps_intersectPostings:
  assumes cP: "conforming P iter"
  shows "steps (intersectPostings_Postings P) (intersect_rel P iter)"
  unfolding steps_def intersectPostings_sel
proof (intro allI impI)
  fix st out
  assume rel: "intersect_rel P iter st out"
  obtain arr cur where st: "st = intersectPostings arr cur" by (cases st)
  obtain xss where ne: "arr \<noteq> []"
    and la: "list_all2 (\<lambda>s xs. \<exists>pos. iter s pos xs) arr xss"
    and inv: "\<forall>xs \<in> set xss. \<forall>x \<in> set xs. cur \<le> x"
    and out: "out = common xss"
    using rel st by (auto simp: intersect_rel_def)
  have nx: "xss \<noteq> []" using ne la by auto
  obtain ok arr' cur' where nl: "intersectPostings_Next_loop P cur arr = Some (ok, arr', cur')"
    and ns: "if [] \<in> set xss then \<not> ok \<and> (\<forall>s \<in> set arr'. Err P s = None)
      else ok \<and> list_all2 (\<lambda>s av. positioned P iter s True av) arr' xss \<and> cur \<le> cur'
         \<and> (\<forall>av \<in> set xss. hd av \<le> cur')
         \<and> (cur' = cur \<or> (\<exists>av \<in> set xss. cur' = hd av))"
    using intersectPostings_Next_loop_spec[OF cP la, of cur] by blast
  let ?goal = "case out of
           [] \<Rightarrow> (\<exists>s'. intersectPostings_Next P st = Some (False, s') \<and> intersectPostings_Err P s' = None)
         | x # r \<Rightarrow> (\<exists>s'. intersectPostings_Next P st = Some (True, s') \<and> intersectPostings_At s' = x
                        \<and> intersect_rel P iter s' r)"
  show ?goal
  proof (cases "[] \<in> set xss")
    case True
    then have "\<not> ok" and e: "\<forall>s \<in> set arr'. Err P s = None" using ns by simp_all
    then have "intersectPostings_Next P st = Some (False, intersectPostings arr' cur')"
      using st nl by simp
    moreover have "intersectPostings_Err P (intersectPostings arr' cur') = None"
      using intersectPostings_Err_loop_None[OF e] by simp
    moreover have "out = []" using out common_Nil[OF True] by simp
    ultimately show ?thesis by simp
  next
    case False
    have t: "ok" "list_all2 (\<lambda>s av. positioned P iter s True av) arr' xss" "cur \<le> cur'"
      "\<forall>av \<in> set xss. hd av \<le> cur'" "cur' = cur \<or> (\<exists>av \<in> set xss. cur' = hd av)"
      using ns unfolding if_not_P[OF False] by blast+
    have srt: "\<forall>av \<in> set xss. sorted_wrt (<) av \<and> av \<noteq> []"
      using list_all2_positioned_sorted[OF cP t(2)] .
    have nxt: "intersectPostings_Next P st = doNext P arr' cur'"
      using st nl t(1) by simp
    have allge: "cur' \<le> x" if x: "\<forall>av \<in> set xss. x \<in> set av" for x
    proof (cases "cur' = cur")
      case True
      obtain av where "av \<in> set xss" using nx by (cases xss) auto
      then show ?thesis using x inv True by blast
    next
      case False
      then obtain av where av: "av \<in> set xss" "cur' = hd av" using t(5) by blast
      have "sorted_wrt (<) av" "av \<noteq> []" "x \<in> set av" using srt av(1) x by auto
      then have "hd av \<le> x" by (cases av) (auto simp: less_imp_le)
      then show ?thesis using av(2) by simp
    qed
    obtain b arr'' m where dn: "doNext P arr' cur' = Some (b, intersectPostings arr'' m)"
      and ds: "if \<exists>x \<ge> cur'. \<forall>av \<in> set xss. x \<in> set av
      then b \<and> cur' \<le> m \<and> (\<forall>av \<in> set xss. m \<in> set av)
         \<and> (\<forall>x. cur' \<le> x \<and> (\<forall>av \<in> set xss. x \<in> set av) \<longrightarrow> m \<le> x)
         \<and> list_all2 (\<lambda>s av. positioned P iter s True (dropWhile (\<lambda>x. x < m) av) \<and> At P s = m)
              arr'' xss
      else \<not> b \<and> (\<forall>s \<in> set arr''. Err P s = None)"
      using doNext_spec[OF cP t(2) t(4)] by blast
    show ?thesis
    proof (cases "\<exists>x \<ge> cur'. \<forall>av \<in> set xss. x \<in> set av")
      case nex: False
      then have "\<not> b" and e: "\<forall>s \<in> set arr''. Err P s = None"
        using ds unfolding if_not_P[OF nex] by blast+
      then have "intersectPostings_Next P st = Some (False, intersectPostings arr'' m)"
        using nxt dn by simp
      moreover have "intersectPostings_Err P (intersectPostings arr'' m) = None"
        using intersectPostings_Err_loop_None[OF e] by simp
      moreover have "out = []"
      proof -
        have "\<And>x. \<not> (\<forall>av \<in> set xss. x \<in> set av)" using nex allge by blast
        then have "set (common xss) = {}" unfolding common_set[OF nx] by blast
        then show ?thesis using out by simp
      qed
      ultimately show ?thesis by simp
    next
      case ex: True
      have u: "b" "\<forall>av \<in> set xss. m \<in> set av"
        "\<forall>x. cur' \<le> x \<and> (\<forall>av \<in> set xss. x \<in> set av) \<longrightarrow> m \<le> x"
        "list_all2 (\<lambda>s av. positioned P iter s True (dropWhile (\<lambda>x. x < m) av) \<and> At P s = m) arr'' xss"
        using ds unfolding if_P[OF ex] by blast+
      have least: "\<forall>x. (\<forall>av \<in> set xss. x \<in> set av) \<longrightarrow> m \<le> x"
        using u(3) allge by blast
      have srtm: "\<forall>av \<in> set xss. sorted_wrt (<) av \<and> m \<in> set av" using srt u(2) by blast
      let ?f = "\<lambda>av. tl (dropWhile (\<lambda>x. x < m) av)"
      have o: "out = m # common (map ?f xss)"
        using out common_step[OF nx srtm least] by simp
      have n1: "intersectPostings_Next P st = Some (True, intersectPostings arr'' m)"
        using nxt dn u(1) by simp
      have l1: "list_all2 (\<lambda>s xs. \<exists>pos. iter s pos xs) arr'' (map ?f xss)"
        unfolding list_all2_map2
      proof (rule list_all2_mono[OF u(4)])
        fix s av
        assume "positioned P iter s True (dropWhile (\<lambda>x. x < m) av) \<and> At P s = m"
        then obtain xs where "dropWhile (\<lambda>x. x < m) av = At P s # xs" "iter s (Some (At P s)) xs"
          using positioned_True[OF cP] by blast
        then have "iter s (Some (At P s)) (?f av)" by simp
        then show "\<exists>pos. iter s pos (?f av)" by blast
      qed
      have l2: "\<forall>xs \<in> set (map ?f xss). \<forall>x \<in> set xs. m \<le> x"
      proof -
        have "\<And>av x. av \<in> set xss \<Longrightarrow> x \<in> set (?f av) \<Longrightarrow> m \<le> x"
        proof -
          fix av x assume "av \<in> set xss" "x \<in> set (?f av)"
          then have "x \<in> {x \<in> set av. m < x}" using set_tl_dropWhile_at[of av m] srtm by blast
          then show "m \<le> x" by simp
        qed
        then show ?thesis by auto
      qed
      have l0: "arr'' \<noteq> []" using u(4) nx by auto
      have "arr'' \<noteq> [] \<and> list_all2 (\<lambda>s xs. \<exists>pos. iter s pos xs) arr'' (map ?f xss)
            \<and> (\<forall>xs \<in> set (map ?f xss). \<forall>x \<in> set xs. m \<le> x)
            \<and> common (map ?f xss) = common (map ?f xss)"
        using l0 l1 l2 by (intro conjI refl)
      then have "intersect_rel P iter (intersectPostings arr'' m) (common (map ?f xss))"
        unfolding intersect_rel_def intersectPostings.case by (rule exI)
      then show ?thesis using n1 o by simp
    qed
  qed
qed

lemma sorted_wrt_common:
  assumes "\<forall>xs \<in> set xss. sorted_wrt (<) xs"
  shows "sorted_wrt (<) (common xss)"
  using assms by (cases xss) (auto simp: common_def sorted_wrt_filter)


text \<open>
  C4. For conforming inputs, expanding \<open>Intersect\<close> gives, strictly increasing and without
  an error, exactly the values that are in every input (the values of the first input
  that are in all the others). With no input, or with an input that is the empty
  sentinel, the result is empty; \<open>Intersect\<close> then returns the sentinel itself, except
  that a single input is returned as it is.
\<close>

theorem Intersect_expands:
  assumes "conforming P iter"
    and "list_all2 (\<lambda>s xs. \<exists>pos. iter s pos xs) its xss"
  shows "ExpandPostings (Intersect_Postings P) (Intersect P its) = Some (common xss, None)
       \<and> sorted_wrt (<) (common xss)
       \<and> (xss \<noteq> [] \<longrightarrow> set (common xss) = {x. \<forall>xs \<in> set xss. x \<in> set xs})
       \<and> (its = [] \<or> (\<exists>p \<in> set its. IsEmptyPostingsType P p) \<longrightarrow> common xss = [])
       \<and> (its = [] \<or> (2 \<le> length its \<and> (\<exists>p \<in> set its. IsEmptyPostingsType P p))
            \<longrightarrow> Intersect P its = Inl EmptyPostings)"
proof -
  note cP = assms(1) and la = assms(2)
  have len: "length its = length xss" using la by (rule list_all2_lengthD)
  have srt: "\<forall>xs \<in> set xss. sorted_wrt (<) xs"
    using la conformingD(1)[OF cP] by (induction rule: list_all2_induct) auto
  have sent: "[] \<in> set xss" if "\<exists>p \<in> set its. IsEmptyPostingsType P p"
    using la that conformingD(3)[OF cP] by (induction rule: list_all2_induct) auto
  have emp: "ExpandPostings (Intersect_Postings P) (Inl EmptyPostings) = Some ([], None)"
    unfolding Intersect_Postings_def
    by (rule ExpandPostings_Inl) (simp add: ExpandPostings_errPostings EmptyPostings_def emptyPostings_def)
  have e: "ExpandPostings (Intersect_Postings P) (Intersect P its) = Some (common xss, None)"
  proof (cases "length its = 0")
    case True
    then have "xss = []" using len by simp
    then show ?thesis using True emp by (simp add: Intersect_def common_def)
  next
    case n0: False
    show ?thesis
    proof (cases "length its = 1")
      case True
      then obtain p where its: "its = [p]" by (cases its) auto
      then obtain xs pos where xss: "xss = [xs]" and ip: "iter p pos xs"
        using la by (auto simp: list_all2_Cons1)
      have "ExpandPostings (Intersect_Postings P) (Inr (Inl p)) = Some (xs, None)"
        unfolding Intersect_Postings_def
        by (intro ExpandPostings_Inr ExpandPostings_Inl ExpandPostings_conforming[OF cP ip])
      then show ?thesis using its xss by (simp add: Intersect_def common_def)
    next
      case n1: False
      show ?thesis
      proof (cases "\<exists>p \<in> set its. IsEmptyPostingsType P p")
        case True
        then have "common xss = []" using sent common_Nil by blast
        then show ?thesis using True n0 n1 emp by (simp add: Intersect_def)
      next
        case False
        have ne: "its \<noteq> []" using n0 by simp
        have "its \<noteq> [] \<and> list_all2 (\<lambda>s xs. \<exists>pos. iter s pos xs) its xss
            \<and> (\<forall>xs \<in> set xss. \<forall>x \<in> set xs. 0 \<le> x) \<and> common xss = common xss"
          using ne la by simp
        then have "intersect_rel P iter (newIntersectPostings its) (common xss)"
          unfolding intersect_rel_def newIntersectPostings_def intersectPostings.case by (rule exI)
        then have "ExpandPostings (intersectPostings_Postings P) (newIntersectPostings its)
                     = Some (common xss, None)"
          using ExpandPostings_steps[OF steps_intersectPostings[OF cP]] by blast
        then have "ExpandPostings (Intersect_Postings P) (Inr (Inr (newIntersectPostings its)))
                     = Some (common xss, None)"
          unfolding Intersect_Postings_def by (intro ExpandPostings_Inr)
        then show ?thesis using False n0 n1 by (simp add: Intersect_def)
      qed
    qed
  qed
  have c2: "sorted_wrt (<) (common xss)" using sorted_wrt_common[OF srt] .
  have c3: "xss \<noteq> [] \<longrightarrow> set (common xss) = {x. \<forall>xs \<in> set xss. x \<in> set xs}"
    using common_set by blast
  have c4: "its = [] \<or> (\<exists>p \<in> set its. IsEmptyPostingsType P p) \<longrightarrow> common xss = []"
  proof
    assume "its = [] \<or> (\<exists>p \<in> set its. IsEmptyPostingsType P p)"
    then show "common xss = []"
    proof
      assume "its = []"
      then have "xss = []" using len by simp
      then show ?thesis by (simp add: common_def)
    next
      assume "\<exists>p \<in> set its. IsEmptyPostingsType P p"
      then show ?thesis using sent common_Nil by blast
    qed
  qed
  have c5: "its = [] \<or> (2 \<le> length its \<and> (\<exists>p \<in> set its. IsEmptyPostingsType P p))
            \<longrightarrow> Intersect P its = Inl EmptyPostings"
    by (auto simp: Intersect_def)
  show ?thesis using e c2 c3 c4 c5 by (intro conjI)
qed

theorem Intersect_expands_witness:
  "ExpandPostings (Intersect_Postings ListPostings_Postings)
     (Intersect ListPostings_Postings [newListPostings [1, 3, 5, 7], newListPostings [3, 4, 5, 6]])
     = Some ([3, 5], None)"
proof -
  have l: "list_all2 (\<lambda>s xs. \<exists>pos. ListPostings_iter s pos xs)
             [newListPostings [1, 3, 5, 7], newListPostings [3, 4, 5, 6]]
             [[1, 3, 5, 7], [3, 4, 5, 6]]"
  proof -
    have "\<exists>pos. ListPostings_iter (newListPostings [1, 3, 5, 7]) pos [1, 3, 5, 7]"
      by (rule exI[of _ None]) (simp add: newListPostings_def)
    moreover have "\<exists>pos. ListPostings_iter (newListPostings [3, 4, 5, 6]) pos [3, 4, 5, 6]"
      by (rule exI[of _ None]) (simp add: newListPostings_def)
    ultimately show ?thesis by simp
  qed
  have c: "common [[1, 3, 5, 7], [3, 4, 5, 6]] = [3, 5]"
    by (simp add: common_def)
  show ?thesis
    using Intersect_expands[OF conforming_ListPostings, OF l, THEN conjunct1]
    unfolding c .
qed

end
